theory Spec2Isabelle
  imports Main
begin

section \<open>float64\<close>

text \<open>
  The elements of a matrix are Go \<^verbatim>\<open>float64\<close> values: IEEE 754 binary64. A value is a NaN
  (payloads are not distinguished), an infinity with its sign, or a finite number
  \<open>Fin s m e\<close> standing for \<open>(-1)^s * m * 2^e\<close>, kept in the normal form where \<open>m\<close> is
  odd, or \<open>m = 0\<close> and \<open>e = 0\<close> for the two zeros. So \<open>Fin False 1 0\<close> is 1.0,
  \<open>Fin True 1 0\<close> is -1.0, \<open>Fin False 0 0\<close> is +0.0 and \<open>Fin True 0 0\<close> is -0.0.
  Every operation computes the exact result and rounds it to the nearest binary64
  number, ties to even, with gradual underflow and overflow to infinity.
\<close>

datatype f64 = NaN | Inf bool | Fin bool int int

instantiation f64 :: "{zero, one}"
begin

definition zero_f64 :: f64 where
  "zero_f64 = Fin False 0 0"

definition one_f64 :: f64 where
  "one_f64 = Fin False 1 0"

instance ..

end

text \<open>The number of binary digits of a positive integer.\<close>

function bitlen :: "int \<Rightarrow> int" where
  "bitlen n = (if n \<le> 0 then 0 else 1 + bitlen (n div 2))"
  by pat_completeness auto
termination
  by (relation "measure nat") auto

declare bitlen.simps [simp del]

text \<open>The normal form of \<open>m * 2^e\<close>: trailing zero digits of \<open>m\<close> move into the exponent.\<close>

function norm :: "int \<Rightarrow> int \<Rightarrow> int \<times> int" where
  "norm m e = (if m = 0 then (0, 0) else if even m then norm (m div 2) (e + 1) else (m, e))"
  by pat_completeness auto
termination
  by (relation "measure (\<lambda>(m, e). nat \<bar>m\<bar>)") auto

declare norm.simps [simp del]

text \<open>
  \<open>finish s n p\<close> packs the rounded magnitude \<open>n * 2^p\<close>: from \<open>2^1024\<close> on it is an
  infinity. \<open>rnd s m e\<close> rounds the exact magnitude \<open>m * 2^e\<close>: the last kept digit has
  weight \<open>2^p\<close>, where 53 digits are kept and \<open>p\<close> is at least \<open>-1074\<close> (subnormal numbers).
\<close>

definition finish :: "bool \<Rightarrow> int \<Rightarrow> int \<Rightarrow> f64" where
  "finish s n p =
     (if 1024 < bitlen n + p then Inf s else (case norm n p of (m, e) \<Rightarrow> Fin s m e))"

definition rnd :: "bool \<Rightarrow> int \<Rightarrow> int \<Rightarrow> f64" where
  "rnd s m e =
     (let p = max (bitlen m - 1 + e) (- 1022) - 52 in
      if m = 0 then Fin s 0 0
      else if p \<le> e then finish s m e
      else (let d = 2 ^ nat (p - e); q = m div d; r = 2 * (m mod d)
            in finish s (if r < d then q else if d < r then q + 1
                         else if even q then q else q + 1) p))"

definition sval :: "bool \<Rightarrow> int \<Rightarrow> int" where
  "sval s m = (if s then - m else m)"

fun fadd :: "f64 \<Rightarrow> f64 \<Rightarrow> f64" where
  "fadd NaN _ = NaN"
| "fadd _ NaN = NaN"
| "fadd (Inf s) (Inf t) = (if s = t then Inf s else NaN)"
| "fadd (Inf s) (Fin _ _ _) = Inf s"
| "fadd (Fin _ _ _) (Inf t) = Inf t"
| "fadd (Fin s a e) (Fin t b f) =
     (let g = min e f; x = sval s a * 2 ^ nat (e - g) + sval t b * 2 ^ nat (f - g)
      in if x = 0 then Fin (s \<and> t) 0 0 else rnd (x < 0) \<bar>x\<bar> g)"

fun fneg :: "f64 \<Rightarrow> f64" where
  "fneg NaN = NaN"
| "fneg (Inf s) = Inf (\<not> s)"
| "fneg (Fin s a e) = Fin (\<not> s) a e"

definition fsub :: "f64 \<Rightarrow> f64 \<Rightarrow> f64" where
  "fsub x y = fadd x (fneg y)"

fun fmul :: "f64 \<Rightarrow> f64 \<Rightarrow> f64" where
  "fmul NaN _ = NaN"
| "fmul _ NaN = NaN"
| "fmul (Inf s) (Inf t) = Inf (s \<noteq> t)"
| "fmul (Inf s) (Fin t b f) = (if b = 0 then NaN else Inf (s \<noteq> t))"
| "fmul (Fin s a e) (Inf t) = (if a = 0 then NaN else Inf (s \<noteq> t))"
| "fmul (Fin s a e) (Fin t b f) = rnd (s \<noteq> t) (a * b) (e + f)"

text \<open>
  The quotient is cut after more than 56 binary digits and the remainder is kept as one
  sticky digit, which is enough to round the exact quotient correctly.
\<close>

fun fdiv :: "f64 \<Rightarrow> f64 \<Rightarrow> f64" where
  "fdiv NaN _ = NaN"
| "fdiv _ NaN = NaN"
| "fdiv (Inf s) (Inf t) = NaN"
| "fdiv (Inf s) (Fin t b f) = Inf (s \<noteq> t)"
| "fdiv (Fin s a e) (Inf t) = Fin (s \<noteq> t) 0 0"
| "fdiv (Fin s a e) (Fin t b f) =
     (if b = 0 then (if a = 0 then NaN else Inf (s \<noteq> t))
      else (let k = 56 + bitlen b; n = a * 2 ^ nat k
            in rnd (s \<noteq> t) (2 * (n div b) + (if n mod b = 0 then 0 else 1)) (e - f - k - 1)))"

text \<open>Go's \<^verbatim>\<open>==\<close> on float64: a NaN equals nothing, the two zeros are equal.\<close>

fun feq :: "f64 \<Rightarrow> f64 \<Rightarrow> bool" where
  "feq (Inf s) (Inf t) = (s = t)"
| "feq (Fin s a e) (Fin t b f) = (a = 0 \<and> b = 0 \<or> s = t \<and> a = b \<and> e = f)"
| "feq _ _ = False"

text \<open>The conversion \<^verbatim>\<open>float64(n)\<close> of an integer.\<close>

definition float64 :: "int \<Rightarrow> f64" where
  "float64 n = rnd (n < 0) \<bar>n\<bar> 0"

fun is_finite :: "f64 \<Rightarrow> bool" where
  "is_finite (Fin s a e) = True"
| "is_finite _ = False"

section \<open>Errors, panics and loops\<close>

text \<open>
  \<^verbatim>\<open>error.go\<close>: a \<^verbatim>\<open>MathError\<close> carries one of six codes or a message. A run-time panic of Go
  (index out of range, slice bounds out of range, length out of range in \<^verbatim>\<open>make\<close>, integer
  division by zero) is the value \<open>runtimePanic\<close>. A function that can fail returns
  \<open>error + 'a\<close>.
\<close>

datatype error =
    errorDivisionByZero
  | errorNonSquareMatrix
  | errorMatrixIsNil
  | errorCannotMultiply
  | errorCannotAdd
  | errorNotInversible
  | errorMessage string
  | runtimePanic

definition bind :: "error + 'a \<Rightarrow> ('a \<Rightarrow> error + 'b) \<Rightarrow> error + 'b" where
  "bind r f = (case r of Inl e \<Rightarrow> Inl e | Inr v \<Rightarrow> f v)"

text \<open>\<^verbatim>\<open>xs[i]\<close> and \<^verbatim>\<open>xs[i] = v\<close> on a slice: out of range they panic.\<close>

definition index_read :: "'a list \<Rightarrow> nat \<Rightarrow> error + 'a" where
  "index_read xs i = (if i < length xs then Inr (xs ! i) else Inl runtimePanic)"

definition index_write :: "'a list \<Rightarrow> nat \<Rightarrow> 'a \<Rightarrow> error + 'a list" where
  "index_write xs i v = (if i < length xs then Inr (xs[i := v]) else Inl runtimePanic)"



text \<open>\<^verbatim>\<open>for i = lo; i < hi; i++ { body }\<close> over a state \<open>s\<close>; a panic in the body ends the loop.\<close>

function for_loop :: "nat \<Rightarrow> nat \<Rightarrow> (nat \<Rightarrow> 's \<Rightarrow> error + 's) \<Rightarrow> 's \<Rightarrow> error + 's" where
  "for_loop lo hi body s =
     (if lo < hi then bind (body lo s) (for_loop (Suc lo) hi body) else Inr s)"
  by pat_completeness auto
termination
  by (relation "measure (\<lambda>(lo, hi, body, s). hi - lo)") auto

declare for_loop.simps [simp del]

text \<open>\<^verbatim>\<open>for o := hi; o >= 0; o-- { body }\<close> with a signed counter.\<close>

function for_down :: "int \<Rightarrow> (int \<Rightarrow> 's \<Rightarrow> error + 's) \<Rightarrow> 's \<Rightarrow> error + 's" where
  "for_down i body s = (if 0 \<le> i then bind (body i s) (for_down (i - 1) body) else Inr s)"
  by pat_completeness auto
termination
  by (relation "measure (\<lambda>(i, body, s). nat (i + 1))") auto

declare for_down.simps [simp del]

section \<open>Machine integers and slices\<close>

text \<open>
  Go's \<^verbatim>\<open>uint\<close> on a 64-bit platform is a natural number below \<open>2^64\<close>, and the result of a
  product, a sum or a difference of such numbers is taken modulo \<open>2^64\<close>. The counts of a
  matrix and the numbers passed to its functions are \<^verbatim>\<open>uint\<close> values; a counter that runs
  below a \<^verbatim>\<open>uint\<close> bound does not wrap. The conversion \<^verbatim>\<open>int(x)\<close> reads the same 64 bits as
  a signed number: from \<open>2^63\<close> on it is negative.
\<close>

definition uint :: "nat \<Rightarrow> nat" where
  "uint x = x mod 2 ^ 64"

definition usub :: "nat \<Rightarrow> nat \<Rightarrow> nat" where
  "usub a b = (a + (2 ^ 64 - b mod 2 ^ 64)) mod 2 ^ 64"

definition to_int :: "nat \<Rightarrow> int" where
  "to_int x = (if x < 2 ^ 63 then int x else int x - 2 ^ 64)"

text \<open>
  \<^verbatim>\<open>make([]float64, n)\<close> with \<open>n\<close> a \<^verbatim>\<open>uint\<close>: a run-time panic when \<open>n\<close> is not an \<^verbatim>\<open>int\<close> value
  (the length of a slice is an \<^verbatim>\<open>int\<close>), and \<open>n\<close> zeros otherwise, with no capacity behind
  them. That \<open>n\<close> zeros fit in memory is taken for granted.
\<close>

definition make_slice :: "nat \<Rightarrow> error + ('a::zero) list" where
  "make_slice n = (if n < 2 ^ 63 then Inr (replicate n 0) else Inl runtimePanic)"

text \<open>\<^verbatim>\<open>xs[i]\<close> with a signed index.\<close>

definition index_read_int :: "'a list \<Rightarrow> int \<Rightarrow> error + 'a" where
  "index_read_int xs i = (if 0 \<le> i then index_read xs (nat i) else Inl runtimePanic)"

section \<open>The matrix\<close>

text \<open>
  \<^verbatim>\<open>type Matrix struct { NumberOfRows uint; NumberOfColumns uint; M []float64 }\<close>.
  A Go slice is a window on a backing array: \<open>M\<close> holds its elements (\<^verbatim>\<open>len\<close> of them) and
  \<open>M_reserve\<close> the elements of the backing array behind them, up to \<^verbatim>\<open>cap\<close>; only
  \<^verbatim>\<open>SubMatrix\<close>, which reslices, looks at them. Every index \<^verbatim>\<open>row*m.NumberOfColumns+column\<close> is
  computed in \<^verbatim>\<open>uint\<close>. Functions that only move elements are written for any element type.
\<close>

record 'a Matrix =
  NumberOfRows :: nat
  NumberOfColumns :: nat
  M :: "'a list"
  M_reserve :: "'a list"

definition NewMatrix :: "nat \<Rightarrow> nat \<Rightarrow> error + ('a::zero) Matrix" where
  "NewMatrix rows cols =
     bind (make_slice (uint (rows * cols))) (\<lambda>xs.
     Inr \<lparr>NumberOfRows = rows, NumberOfColumns = cols, M = xs, M_reserve = []\<rparr>)"

definition IsSquare :: "'a Matrix \<Rightarrow> bool" where
  "IsSquare m = (NumberOfColumns m = NumberOfRows m)"

definition Get :: "'a Matrix \<Rightarrow> nat \<Rightarrow> nat \<Rightarrow> error + 'a" where
  "Get m row column = index_read (M m) (uint (row * NumberOfColumns m + column))"

definition Set :: "'a Matrix \<Rightarrow> nat \<Rightarrow> nat \<Rightarrow> 'a \<Rightarrow> error + 'a Matrix" where
  "Set m row column v =
     bind (index_write (M m) (uint (row * NumberOfColumns m + column)) v)
       (\<lambda>xs. Inr (m\<lparr>M := xs\<rparr>))"

definition NewIdentity :: "nat \<Rightarrow> error + f64 Matrix" where
  "NewIdentity rows =
     bind (make_slice (uint (rows * rows))) (\<lambda>xs.
     for_loop 0 rows
       (\<lambda>j. for_loop 0 rows (\<lambda>k i. if j = k then Set i j k 1 else Inr i))
       \<lparr>NumberOfRows = rows, NumberOfColumns = rows, M = xs, M_reserve = []\<rparr>)"

definition GetColumn :: "'a::zero Matrix \<Rightarrow> nat \<Rightarrow> error + 'a list" where
  "GetColumn m colNumber =
     bind (make_slice (NumberOfRows m)) (\<lambda>col.
     for_loop 0 (NumberOfRows m)
       (\<lambda>rows col. bind (index_read (M m) (uint (rows * NumberOfColumns m + colNumber)))
                      (\<lambda>v. index_write col rows v))
       col)"

text \<open>
  \<^verbatim>\<open>SubMatrix\<close> allocates a matrix and then replaces its buffer by a reslice of the
  argument's: \<^verbatim>\<open>m.M[lo:hi]\<close> needs \<open>lo \<le> hi \<le> cap\<close>, and shares the backing array.
\<close>

definition SubMatrix :: "'a::zero Matrix \<Rightarrow> nat \<Rightarrow> nat \<Rightarrow> nat \<Rightarrow> nat \<Rightarrow> error + 'a Matrix" where
  "SubMatrix m row col numberRows numberCols =
     bind (NewMatrix numberRows numberCols) (\<lambda>sub.
     (let lo = uint (row * NumberOfColumns m + col);
          hi = uint (row * NumberOfColumns m + col + numberRows * NumberOfColumns m + numberCols);
          backing = M m @ M_reserve m
      in if lo \<le> hi \<and> hi \<le> length backing
         then Inr (sub\<lparr>M := take (hi - lo) (drop lo backing), M_reserve := drop hi backing,
                        NumberOfColumns := numberCols, NumberOfRows := numberRows\<rparr>)
         else Inl runtimePanic))"

definition Multiply :: "f64 Matrix \<Rightarrow> f64 Matrix \<Rightarrow> error + f64 Matrix" where
  "Multiply m in' =
     (if NumberOfColumns m \<noteq> NumberOfRows in' then Inl errorCannotMultiply
      else bind (NewMatrix (NumberOfRows m) (NumberOfColumns in'))
        (for_loop 0 (NumberOfRows m)
          (\<lambda>i. for_loop 0 (NumberOfColumns in')
            (\<lambda>j. for_loop 0 (NumberOfColumns m)
              (\<lambda>k result.
                 bind (index_read (M result) (uint (i * NumberOfColumns result + j))) (\<lambda>r.
                 bind (index_read (M m) (uint (i * NumberOfColumns m + k))) (\<lambda>a.
                 bind (index_read (M in') (uint (k * NumberOfColumns in' + j))) (\<lambda>b.
                 Set result i j (fadd r (fmul a b))))))))))"

definition ScalarMultiply :: "f64 Matrix \<Rightarrow> f64 \<Rightarrow> error + f64 Matrix" where
  "ScalarMultiply m scal =
     bind (NewMatrix (NumberOfColumns m) (NumberOfRows m))
       (for_loop 0 (NumberOfRows m)
         (\<lambda>row. for_loop 0 (NumberOfColumns m)
           (\<lambda>col result.
              bind (index_read (M result) (uint (row * NumberOfColumns result + col))) (\<lambda>r.
              Set result row col (fmul r scal)))))"

definition Add :: "f64 Matrix \<Rightarrow> f64 Matrix \<Rightarrow> error + f64 Matrix" where
  "Add m in' =
     (if NumberOfColumns in' \<noteq> NumberOfColumns m \<or> NumberOfRows in' \<noteq> NumberOfRows m
      then Inl errorCannotAdd
      else bind (NewMatrix (NumberOfColumns m) (NumberOfRows m))
        (for_loop 0 (NumberOfRows m)
          (\<lambda>row. for_loop 0 (NumberOfColumns m)
            (\<lambda>col result.
               bind (index_read (M m) (uint (row * NumberOfColumns m + col))) (\<lambda>a.
               bind (index_read (M in') (uint (row * NumberOfColumns in' + col))) (\<lambda>b.
               Set result row col (fadd a b)))))))"

definition Neg :: "f64 Matrix \<Rightarrow> error + f64 Matrix" where
  "Neg m = ScalarMultiply m (Fin True 1 0)"

definition Subtract :: "f64 Matrix \<Rightarrow> f64 Matrix \<Rightarrow> error + f64 Matrix" where
  "Subtract m in' =
     (if NumberOfColumns in' \<noteq> NumberOfColumns m \<or> NumberOfRows in' \<noteq> NumberOfRows m
      then Inl errorCannotAdd
      else bind (Neg in') (Add m))"

subsection \<open>LU decomposition, determinant, inverse\<close>

text \<open>
  The summation of \<^verbatim>\<open>LUDecomposition\<close>, written twice in the source:
  \<^verbatim>\<open>sum := 0.0; for j = 0; j < i; j++ { sum += l.M[a*l.NumberOfColumns+j] * u.M[j*u.NumberOfColumns+b] }\<close>,
  with \<open>(a, b) = (i, k)\<close> for the upper matrix and \<open>(k, i)\<close> for the lower one.
\<close>

definition lu_sum :: "f64 Matrix \<Rightarrow> f64 Matrix \<Rightarrow> nat \<Rightarrow> nat \<Rightarrow> nat \<Rightarrow> error + f64" where
  "lu_sum l u i a b =
     for_loop 0 i
       (\<lambda>j sum. bind (index_read (M l) (uint (a * NumberOfColumns l + j))) (\<lambda>x.
                bind (index_read (M u) (uint (j * NumberOfColumns u + b))) (\<lambda>y.
                Inr (fadd sum (fmul x y)))))
       0"

text \<open>The two inner loops of step \<open>i\<close>: row \<open>i\<close> of \<open>u\<close>, then column \<open>i\<close> of \<open>l\<close>.\<close>

definition lu_upper :: "f64 Matrix \<Rightarrow> f64 Matrix \<Rightarrow> nat \<Rightarrow> f64 Matrix \<Rightarrow> error + f64 Matrix" where
  "lu_upper m l i u0 =
     for_loop i (NumberOfColumns m)
       (\<lambda>k u. bind (lu_sum l u i i k) (\<lambda>sum.
              bind (index_read (M m) (uint (i * NumberOfColumns m + k))) (\<lambda>a.
              Set u i k (fsub a sum))))
       u0"

definition lu_lower :: "f64 Matrix \<Rightarrow> f64 Matrix \<Rightarrow> nat \<Rightarrow> f64 Matrix \<Rightarrow> error + f64 Matrix" where
  "lu_lower m u i l0 =
     for_loop i (NumberOfColumns m)
       (\<lambda>k l. if i = k then Set l i i 1
              else bind (lu_sum l u i k i) (\<lambda>sum.
                   bind (index_read (M m) (uint (k * NumberOfColumns m + i))) (\<lambda>a.
                   bind (index_read (M u) (uint (i * NumberOfColumns u + i))) (\<lambda>d.
                   Set l k i (fdiv (fsub a sum) d)))))
       l0"

definition LUDecomposition :: "f64 Matrix \<Rightarrow> error + f64 Matrix \<times> f64 Matrix" where
  "LUDecomposition m =
     (if \<not> IsSquare m then Inl errorNonSquareMatrix
      else bind (NewMatrix (NumberOfRows m) (NumberOfColumns m)) (\<lambda>l0.
           bind (NewMatrix (NumberOfRows m) (NumberOfColumns m)) (\<lambda>u0.
           for_loop 0 (NumberOfColumns m)
             (\<lambda>i (l, u). bind (lu_upper m l i u) (\<lambda>u'.
                          bind (lu_lower m u' i l) (\<lambda>l'. Inr (l', u'))))
             (l0, u0))))"

text \<open>
  \<^verbatim>\<open>det := 1.0; for row = 0; row < m.NumberOfRows; row++ { det *= u.Get(row, column); column++ }\<close>,
  the same in \<^verbatim>\<open>Determinant\<close> and \<^verbatim>\<open>determinantLU\<close>.
\<close>

definition diagonal_product :: "f64 Matrix \<Rightarrow> f64 Matrix \<Rightarrow> error + f64" where
  "diagonal_product m u =
     bind (for_loop 0 (NumberOfRows m)
             (\<lambda>row (det, column).
                bind (Get u row column) (\<lambda>d. Inr (fmul det d, uint (column + 1))))
             (1, 0))
       (\<lambda>(det, column). Inr det)"

definition Determinant :: "f64 Matrix \<Rightarrow> error + f64" where
  "Determinant m =
     (if \<not> IsSquare m then Inl errorNonSquareMatrix
      else bind (LUDecomposition m) (\<lambda>(l, u). diagonal_product m u))"

definition determinantLU :: "f64 Matrix \<Rightarrow> error + f64 \<times> f64 Matrix \<times> f64 Matrix" where
  "determinantLU m =
     (if \<not> IsSquare m then Inl errorNonSquareMatrix
      else bind (LUDecomposition m) (\<lambda>(l, u).
           bind (diagonal_product m u) (\<lambda>det. Inr (det, l, u))))"

text \<open>
  \<^verbatim>\<open>Inverse\<close>, first pass: \<open>L * Y = I\<close>, column \<open>k\<close> of \<open>Y\<close> from the top. The counters \<open>k\<close>,
  \<open>i\<close> and \<open>j\<close> are of type \<^verbatim>\<open>int\<close> and are not negative, so \<^verbatim>\<open>uint(k)\<close> is \<open>k\<close>. The variable
  \<^verbatim>\<open>sum\<close> lives outside the loops and is reset after each use, so it is part of the state.
\<close>

definition forward_column :: "f64 Matrix \<Rightarrow> f64 Matrix \<Rightarrow> nat \<Rightarrow> f64 Matrix \<times> f64 \<Rightarrow> error + f64 Matrix \<times> f64" where
  "forward_column l idm k = (\<lambda>(y, sum).
     bind (GetColumn idm k) (\<lambda>col.
     bind (index_read col 0) (\<lambda>c0.
     bind (Get l 0 0) (\<lambda>l00.
     bind (index_write (M y) k (fdiv c0 l00)) (\<lambda>ys.
     for_loop 1 (nat (to_int (NumberOfRows l)))
       (\<lambda>i (y, sum).
          bind (for_loop 0 i
                  (\<lambda>j sum. bind (Get l i j) (\<lambda>a.
                           bind (index_read (M y) (uint (j * NumberOfColumns y + k))) (\<lambda>b.
                           Inr (fadd sum (fmul a b)))))
                  sum) (\<lambda>sum.
          bind (Get idm i k) (\<lambda>e.
          bind (Get l i i) (\<lambda>d.
          bind (Set y i k (fdiv (fsub e sum) d)) (\<lambda>y'. Inr (y', 0))))))
       (y\<lparr>M := ys\<rparr>, sum))))))"

text \<open>
  Second pass: \<open>U * X = Y\<close>, column \<open>cols - 1 - n\<close> of \<open>X\<close> from the bottom. The differences
  \<^verbatim>\<open>x.NumberOfRows-1\<close> and \<^verbatim>\<open>x.NumberOfColumns-1-uint(n)\<close> are unsigned; the index
  \<^verbatim>\<open>int(y.NumberOfRows)-1\<close> and the counters \<open>o\<close> and \<open>p\<close> are signed.
\<close>

definition backward_column :: "f64 Matrix \<Rightarrow> f64 Matrix \<Rightarrow> nat \<Rightarrow> f64 Matrix \<times> f64 \<Rightarrow> error + f64 Matrix \<times> f64" where
  "backward_column u y n = (\<lambda>(x, sum2).
     (let c = usub (usub (NumberOfColumns x) 1) n in
      bind (GetColumn y c) (\<lambda>col.
      bind (index_read_int col (to_int (NumberOfRows y) - 1)) (\<lambda>yl.
      bind (Get u (usub (NumberOfRows x) 1) (usub (NumberOfColumns x) 1)) (\<lambda>ul.
      bind (Set x (usub (NumberOfRows x) 1) c (fdiv yl ul)) (\<lambda>x1.
      for_down (to_int (NumberOfColumns x1) - 2)
        (\<lambda>p (x, sum2).
           bind (for_loop (nat (p + 1)) (nat (to_int (NumberOfRows x)))
                   (\<lambda>q sum2. bind (Get u (nat p) q) (\<lambda>a.
                             bind (Get x q c) (\<lambda>b.
                             Inr (fadd sum2 (fmul a b)))))
                   sum2) (\<lambda>sum2.
           bind (Get y (nat p) c) (\<lambda>e.
           bind (Get u (nat p) (nat p)) (\<lambda>d.
           bind (Set x (nat p) c (fdiv (fsub e sum2) d)) (\<lambda>x'. Inr (x', 0))))))
        (x1, sum2)))))))"

definition Inverse :: "f64 Matrix \<Rightarrow> error + f64 Matrix" where
  "Inverse m =
     bind (determinantLU m) (\<lambda>(det, l, u).
     if feq det 0 then Inl errorNotInversible
     else bind (NewIdentity (NumberOfRows m)) (\<lambda>idm.
          bind (NewMatrix (NumberOfRows m) (NumberOfColumns m)) (\<lambda>y.
          bind (for_loop 0 (nat (to_int (NumberOfColumns y))) (forward_column l idm) (y, 0))
            (\<lambda>(y, sum).
          bind (NewMatrix (NumberOfRows m) (NumberOfColumns m)) (\<lambda>x.
          bind (for_loop 0 (nat (to_int (NumberOfColumns x))) (backward_column u y) (x, 0))
            (\<lambda>(x, sum2).
          Inr x))))))"

subsection \<open>Transpose\<close>

text \<open>
  The square case: \<^verbatim>\<open>for k := 0; k < int(rows); k++\<close> copies the diagonal, then
  \<^verbatim>\<open>for i := 0; i <= int(rows)-2; i++ { for j := i + 1; j <= int(rows)-1; j++ { ... } }\<close> copies
  each pair across it. The bounds are signed, so with no rows no loop runs.
\<close>

definition squareTranspose :: "'a::zero Matrix \<Rightarrow> error + 'a Matrix" where
  "squareTranspose m =
     bind (NewMatrix (NumberOfColumns m) (NumberOfRows m)) (\<lambda>ret.
     bind (for_loop 0 (nat (to_int (NumberOfRows m)))
             (\<lambda>k ret. bind (Get m k k) (\<lambda>v. Set ret k k v))
             ret) (\<lambda>ret.
     for_loop 0 (nat (to_int (NumberOfRows m) - 1))
       (\<lambda>i. for_loop (i + 1) (nat (to_int (NumberOfRows m)))
          (\<lambda>j ret. bind (Get m i j) (\<lambda>a.
                   bind (Set ret j i a) (\<lambda>ret1.
                   bind (Get m j i) (\<lambda>b.
                   Set ret1 i j b)))))
       ret))"

text \<open>
  The other case follows the cycles of the index permutation
  \<^verbatim>\<open>j = (j % rows) * cols + j / rows\<close>; with no rows the remainder panics. Both inner loops
  are \<^verbatim>\<open>for ok := true; ok; { ...; ok = (j > start) }\<close>: the body runs once before the test,
  and nothing bounds the number of rounds, so not returning is the value \<open>None\<close>. The first
  loop only counts the cycle; the second copies along it. The indices are of type \<^verbatim>\<open>int64\<close>;
  they start from \<open>0\<close> and are written as natural numbers, which is what they are as long
  as \<open>rows * cols\<close> is an \<^verbatim>\<open>int64\<close> value.
\<close>

definition cycle_next :: "nat \<Rightarrow> nat \<Rightarrow> nat \<Rightarrow> error + nat" where
  "cycle_next rows cols j =
     (if rows = 0 then Inl runtimePanic else Inr ((j mod rows) * cols + j div rows))"

partial_function (option) scan_cycle ::
  "nat \<Rightarrow> nat \<Rightarrow> nat \<Rightarrow> nat \<times> nat \<Rightarrow> (error + nat \<times> nat) option" where
  "scan_cycle rows cols start ij =
     (case cycle_next rows cols (snd ij) of
        Inl e \<Rightarrow> Some (Inl e)
      | Inr j \<Rightarrow> if start < j then scan_cycle rows cols start (fst ij + 1, j)
                 else Some (Inr (fst ij + 1, j)))"

declare scan_cycle.simps [code]

text \<open>
  One round of the second loop:
  \<^verbatim>\<open>i = ...; if ret.M[j] = m.M[i]; i == start { ret.M[j] = tmp }; j = i\<close>.
\<close>

definition copy_step ::
  "nat \<Rightarrow> nat \<Rightarrow> 'a list \<Rightarrow> nat \<Rightarrow> 'a \<Rightarrow> nat \<times> 'a list \<Rightarrow> error + nat \<times> 'a list" where
  "copy_step rows cols src start tmp = (\<lambda>(j, ret).
     bind (cycle_next rows cols j) (\<lambda>i.
     bind (index_read src i) (\<lambda>v.
     bind (index_write ret j v) (\<lambda>ret1.
     bind (if i = start then index_write ret1 j tmp else Inr ret1) (\<lambda>ret2.
     Inr (i, ret2))))))"

partial_function (option) copy_cycle ::
  "nat \<Rightarrow> nat \<Rightarrow> 'a list \<Rightarrow> nat \<Rightarrow> 'a \<Rightarrow> nat \<times> 'a list \<Rightarrow> (error + nat \<times> 'a list) option" where
  "copy_cycle rows cols src start tmp jr =
     (case copy_step rows cols src start tmp jr of
        Inl e \<Rightarrow> Some (Inl e)
      | Inr ir \<Rightarrow> if start < fst ir then copy_cycle rows cols src start tmp ir
                  else Some (Inr ir))"

declare copy_cycle.simps [code]

text \<open>A counted loop whose body may not return.\<close>

function for_loop_opt ::
  "nat \<Rightarrow> nat \<Rightarrow> (nat \<Rightarrow> 's \<Rightarrow> (error + 's) option) \<Rightarrow> 's \<Rightarrow> (error + 's) option" where
  "for_loop_opt lo hi body s =
     (if lo < hi
      then (case body lo s of
              None \<Rightarrow> None
            | Some (Inl e) \<Rightarrow> Some (Inl e)
            | Some (Inr s') \<Rightarrow> for_loop_opt (Suc lo) hi body s')
      else Some (Inr s))"
  by pat_completeness auto
termination
  by (relation "measure (\<lambda>(lo, hi, body, s). hi - lo)") auto

declare for_loop_opt.simps [simp del]

text \<open>
  \<^verbatim>\<open>for start = 0; start <= int64(rows*cols-1); start++\<close>: the product and the difference
  are unsigned, so on an empty buffer \<open>0 - 1\<close> wraps to \<open>2^64 - 1\<close>, which \<^verbatim>\<open>int64\<close> reads as
  \<open>-1\<close>, and the loop does not run.
\<close>

definition last_index :: "nat \<Rightarrow> nat \<Rightarrow> int" where
  "last_index rows cols = to_int (usub (uint (rows * cols)) 1)"

definition transpose_cycle :: "'a Matrix \<Rightarrow> nat \<Rightarrow> 'a list \<Rightarrow> (error + 'a list) option" where
  "transpose_cycle m start ret =
     (case scan_cycle (NumberOfRows m) (NumberOfColumns m) start (0, start) of
        None \<Rightarrow> None
      | Some (Inl e) \<Rightarrow> Some (Inl e)
      | Some (Inr ij) \<Rightarrow>
          (case index_read (M m) start of
             Inl e \<Rightarrow> Some (Inl e)
           | Inr tmp \<Rightarrow>
               (case copy_cycle (NumberOfRows m) (NumberOfColumns m) (M m) start tmp (start, ret) of
                  None \<Rightarrow> None
                | Some (Inl e) \<Rightarrow> Some (Inl e)
                | Some (Inr ir) \<Rightarrow> Some (Inr (snd ir)))))"

definition nonSquareTranspose :: "'a::zero Matrix \<Rightarrow> (error + 'a Matrix) option" where
  "nonSquareTranspose m =
     (case NewMatrix (NumberOfColumns m) (NumberOfRows m) of
        Inl e \<Rightarrow> Some (Inl e)
      | Inr ret \<Rightarrow>
          (case for_loop_opt 0 (nat (last_index (NumberOfRows m) (NumberOfColumns m) + 1))
                  (transpose_cycle m) (M ret) of
             None \<Rightarrow> None
           | Some (Inl e) \<Rightarrow> Some (Inl e)
           | Some (Inr xs) \<Rightarrow> Some (Inr (ret\<lparr>M := xs\<rparr>))))"

definition Transpose :: "'a::zero Matrix \<Rightarrow> (error + 'a Matrix) option" where
  "Transpose m = (if \<not> IsSquare m then nonSquareTranspose m else Some (squareTranspose m))"

section \<open>Shapes, entries and sums\<close>

text \<open>
  The storage invariant of a matrix: the buffer has \<open>rows * cols\<close> elements. The two
  counts are \<^verbatim>\<open>uint\<close> values and the length of the buffer is an \<^verbatim>\<open>int\<close> value, as for every
  matrix that a Go program holds.
\<close>

definition well_formed :: "'a Matrix \<Rightarrow> bool" where
  "well_formed m =
     (NumberOfRows m < 2 ^ 64 \<and> NumberOfColumns m < 2 ^ 64
      \<and> length (M m) = NumberOfRows m * NumberOfColumns m \<and> length (M m) < 2 ^ 63)"

text \<open>A matrix of a given shape on a buffer of that many elements, which is a slice of Go.\<close>

definition shaped :: "nat \<Rightarrow> nat \<Rightarrow> 'a Matrix \<Rightarrow> bool" where
  "shaped rows cols m =
     (NumberOfRows m = rows \<and> NumberOfColumns m = cols \<and> length (M m) = rows * cols
      \<and> rows * cols < 2 ^ 63)"

text \<open>
  A matrix with a fresh buffer holding the given whole numbers, row after row, as the
  tests build theirs with \<^verbatim>\<open>NewMatrix\<close> and \<^verbatim>\<open>SetRow\<close>.
\<close>

definition matrix_of :: "nat \<Rightarrow> nat \<Rightarrow> int list \<Rightarrow> f64 Matrix" where
  "matrix_of rows cols xs =
     \<lparr>NumberOfRows = rows, NumberOfColumns = cols, M = map float64 xs, M_reserve = []\<rparr>"

text \<open>The matrix of zeros that \<^verbatim>\<open>NewMatrix\<close> returns.\<close>

definition zeros :: "nat \<Rightarrow> nat \<Rightarrow> ('a::zero) Matrix" where
  "zeros rows cols =
     \<lparr>NumberOfRows = rows, NumberOfColumns = cols, M = replicate (rows * cols) 0, M_reserve = []\<rparr>"

definition all_zero :: "f64 Matrix \<Rightarrow> bool" where
  "all_zero m = list_all (\<lambda>x. feq x 0) (M m)"

text \<open>The element at \<open>(r, c)\<close> of a matrix, row-major, read without a check (for stating).\<close>

definition entry :: "'a Matrix \<Rightarrow> nat \<Rightarrow> nat \<Rightarrow> 'a" where
  "entry m r c = M m ! (r * NumberOfColumns m + c)"

text \<open>
  The sum \<open>\<Sum> x\<^sub>j * y\<^sub>j\<close> over the indices \<open>js\<close> in float64 arithmetic: each product is
  rounded, and the products are added to 0.0 one after the other, each sum rounded.
\<close>

definition dot :: "nat list \<Rightarrow> (nat \<Rightarrow> f64) \<Rightarrow> (nat \<Rightarrow> f64) \<Rightarrow> f64" where
  "dot js x y = foldl (\<lambda>s j. fadd s (fmul (x j) (y j))) 0 js"

text \<open>
  The recursion of the specification (4.3) for the two factors, with the operations of
  float64: \<open>U[i][k] = A[i][k] - \<Sum>\<^bsub>j<i\<^esub> L[i][j] * U[j][k]\<close> and
  \<open>L[k][i] = (A[k][i] - \<Sum>\<^bsub>j<i\<^esub> L[k][j] * U[j][i]) / U[i][i]\<close>.
\<close>

definition doolittle_U :: "f64 Matrix \<Rightarrow> f64 Matrix \<Rightarrow> f64 Matrix \<Rightarrow> nat \<Rightarrow> nat \<Rightarrow> f64" where
  "doolittle_U a l u i k = fsub (entry a i k) (dot [0..<i] (entry l i) (\<lambda>j. entry u j k))"

definition doolittle_L :: "f64 Matrix \<Rightarrow> f64 Matrix \<Rightarrow> f64 Matrix \<Rightarrow> nat \<Rightarrow> nat \<Rightarrow> f64" where
  "doolittle_L a l u k i =
     fdiv (fsub (entry a k i) (dot [0..<i] (entry l k) (\<lambda>j. entry u j i))) (entry u i i)"

text \<open>The element at \<open>(i, k)\<close> of an identity matrix.\<close>

definition unit_entry :: "nat \<Rightarrow> nat \<Rightarrow> f64" where
  "unit_entry i k = (if i = k then 1 else 0)"

text \<open>
  The equations of the two substitutions of the specification (4.4), with the operations
  of float64: \<open>Y\<close> from \<open>L * Y = I\<close>, each column from the top,
  \<open>Y[i][k] = (I[i][k] - \<Sum>\<^bsub>j<i\<^esub> L[i][j] * Y[j][k]) / L[i][i]\<close>, and \<open>X\<close> from \<open>U * X = Y\<close>, each
  column from the bottom, \<open>X[r][c] = (Y[r][c] - \<Sum>\<^bsub>r<p\<^esub> U[r][p] * X[p][c]) / U[r][r]\<close>, where the
  last row, which has no sum, is divided only.
\<close>

definition forward_entry :: "f64 Matrix \<Rightarrow> f64 Matrix \<Rightarrow> nat \<Rightarrow> nat \<Rightarrow> f64" where
  "forward_entry l y i k =
     fdiv (fsub (unit_entry i k) (dot [0..<i] (entry l i) (\<lambda>j. entry y j k))) (entry l i i)"

definition backward_entry :: "f64 Matrix \<Rightarrow> f64 Matrix \<Rightarrow> f64 Matrix \<Rightarrow> nat \<Rightarrow> nat \<Rightarrow> f64" where
  "backward_entry u y x r c =
     fdiv (if Suc r = NumberOfRows x then entry y r c
           else fsub (entry y r c) (dot [Suc r..<NumberOfRows x] (entry u r) (\<lambda>p. entry x p c)))
       (entry u r r)"

text \<open>
  Lower triangular \<open>n\<close> by \<open>n\<close> with zeros above the diagonal and ones on its first \<open>i\<close>
  places; upper triangular \<open>n\<close> by \<open>n\<close> with zeros below the diagonal.
\<close>

definition lower_unit :: "nat \<Rightarrow> nat \<Rightarrow> f64 Matrix \<Rightarrow> bool" where
  "lower_unit n i l =
     (shaped n n l \<and> (\<forall>r<n. \<forall>c<n. r < c \<longrightarrow> entry l r c = 0) \<and> (\<forall>r<i. entry l r r = 1))"

definition upper :: "nat \<Rightarrow> f64 Matrix \<Rightarrow> bool" where
  "upper n u = (shaped n n u \<and> (\<forall>r<n. \<forall>c<n. c < r \<longrightarrow> entry u r c = 0))"

text \<open>
  The buffer of the \<open>n\<close> by \<open>n\<close> matrix with ones on the first \<open>j\<close> places of the diagonal
  and zeros elsewhere; with \<open>j = n\<close>, the identity.
\<close>

definition diag_upto :: "nat \<Rightarrow> nat \<Rightarrow> f64 list" where
  "diag_upto n j =
     map (\<lambda>idx. if idx div n = idx mod n \<and> idx div n < j then 1 else 0) [0..<n * n]"

definition diag_matrix :: "nat \<Rightarrow> nat \<Rightarrow> f64 Matrix" where
  "diag_matrix n j =
     \<lparr>NumberOfRows = n, NumberOfColumns = n, M = diag_upto n j, M_reserve = []\<rparr>"

text \<open>Go's \<^verbatim>\<open><\<close> on float64.\<close>

fun flt :: "f64 \<Rightarrow> f64 \<Rightarrow> bool" where
  "flt NaN _ = False"
| "flt _ NaN = False"
| "flt (Inf s) (Inf t) = (s \<and> \<not> t)"
| "flt (Inf s) (Fin _ _ _) = s"
| "flt (Fin _ _ _) (Inf t) = (\<not> t)"
| "flt (Fin s a e) (Fin t b f) =
     (let g = min e f in sval s a * 2 ^ nat (e - g) < sval t b * 2 ^ nat (f - g))"

text \<open>
  The comparison of the repository's tests, \<^verbatim>\<open>tolerance(a, b, e)\<close>: \<open>a\<close> is the computed value,
  \<open>b\<close> the expected one, \<open>e\<close> the tolerance, relative to \<open>b\<close> unless \<open>b\<close> is zero.
\<close>

definition tolerance :: "f64 \<Rightarrow> f64 \<Rightarrow> f64 \<Rightarrow> bool" where
  "tolerance a b e =
     (if feq a b then True
      else (let d = fsub a b;
                d = (if flt d 0 then fneg d else d);
                e = (if \<not> feq b 0
                     then (let e = fmul e b in if flt e 0 then fneg e else e)
                     else e)
            in flt d e))"

text \<open>The tolerance \<^verbatim>\<open>1e-9\<close> as a float64: \<open>4835703278458517 * 2^-82\<close>.\<close>

definition tol_1e9 :: f64 where
  "tol_1e9 = Fin False 4835703278458517 (- 82)"

text \<open>
  A 2 by 2 matrix with a small pivot: \<open>[2^-60  1; 1  1]\<close>. Its determinant is \<open>2^-60 - 1\<close>.
\<close>

definition small_pivot :: "f64 Matrix" where
  "small_pivot =
     \<lparr>NumberOfRows = 2, NumberOfColumns = 2, M = [Fin False 1 (- 60), 1, 1, 1], M_reserve = []\<rparr>"

text \<open>The 1 by 1 matrix holding the least positive float64, \<open>2^-1074\<close>.\<close>

definition least_positive :: "f64 Matrix" where
  "least_positive =
     \<lparr>NumberOfRows = 1, NumberOfColumns = 1, M = [Fin False 1 (- 1074)], M_reserve = []\<rparr>"

text \<open>The factors that \<^verbatim>\<open>LUDecomposition\<close> computes for it, and the inverse that \<^verbatim>\<open>Inverse\<close> returns.\<close>

definition small_pivot_L :: "f64 Matrix" where
  "small_pivot_L =
     \<lparr>NumberOfRows = 2, NumberOfColumns = 2, M = [1, 0, Fin False 1 60, 1], M_reserve = []\<rparr>"

definition small_pivot_U :: "f64 Matrix" where
  "small_pivot_U =
     \<lparr>NumberOfRows = 2, NumberOfColumns = 2, M = [Fin False 1 (- 60), 1, 0, Fin True 1 60],
      M_reserve = []\<rparr>"

definition small_pivot_inverse :: "f64 Matrix" where
  "small_pivot_inverse =
     \<lparr>NumberOfRows = 2, NumberOfColumns = 2, M = [0, 1, 1, Fin True 1 (- 60)], M_reserve = []\<rparr>"

text \<open>
  What a transposition has to return: the element at index \<open>p\<close> of the new buffer, which
  has \<open>rows\<close> columns, is the element at \<open>(p mod rows) * cols + p div rows\<close> of the old one.
\<close>

definition transpose_index :: "nat \<Rightarrow> nat \<Rightarrow> nat \<Rightarrow> nat" where
  "transpose_index rows cols p = (p mod rows) * cols + p div rows"

definition transposed :: "'a Matrix \<Rightarrow> 'a Matrix" where
  "transposed m =
     \<lparr>NumberOfRows = NumberOfColumns m, NumberOfColumns = NumberOfRows m,
      M = map (\<lambda>p. M m ! transpose_index (NumberOfRows m) (NumberOfColumns m) p)
            [0..<NumberOfRows m * NumberOfColumns m],
      M_reserve = []\<rparr>"

text \<open>
  The places \<open>S\<close> of a buffer under construction hold what the transposed buffer has to hold.
\<close>

definition copied :: "nat \<Rightarrow> nat \<Rightarrow> 'a list \<Rightarrow> nat set \<Rightarrow> 'a list \<Rightarrow> bool" where
  "copied R C src S ret =
     (length ret = R * C \<and> (\<forall>p\<in>S. p < R * C \<longrightarrow> ret ! p = src ! transpose_index R C p))"

text \<open>
  The places of an \<open>n\<close> by \<open>n\<close> buffer that the loops of the square case have filled: the
  diagonal up to \<open>k\<close>, the pairs across the diagonal with the smaller index below \<open>i\<close>, and
  the pairs \<open>(i, b)\<close>, \<open>(b, i)\<close> with \<open>i < b < j\<close>.
\<close>

definition diag_places :: "nat \<Rightarrow> nat \<Rightarrow> nat set" where
  "diag_places n k = {p. \<exists>x<k. p = x * n + x}"

definition pair_places :: "nat \<Rightarrow> nat \<Rightarrow> nat set" where
  "pair_places n i = {p. \<exists>a b. a < i \<and> a < b \<and> b < n \<and> (p = b * n + a \<or> p = a * n + b)}"

definition row_places :: "nat \<Rightarrow> nat \<Rightarrow> nat \<Rightarrow> nat set" where
  "row_places n i j = {p. \<exists>b. i < b \<and> b < j \<and> (p = b * n + i \<or> p = i * n + b)}"

definition filled :: "'a Matrix \<Rightarrow> nat set \<Rightarrow> 'a Matrix \<Rightarrow> bool" where
  "filled m S ret =
     (shaped (NumberOfRows m) (NumberOfRows m) ret \<and> M_reserve ret = []
      \<and> copied (NumberOfRows m) (NumberOfRows m) (M m) S (M ret))"


section \<open>Simpson\<close>

text \<open>
  Go's \<^verbatim>\<open>int\<close> on a 64-bit platform: a whole number from \<open>-2^63\<close> to \<open>2^63 - 1\<close>; sums and
  differences wrap around, and \<^verbatim>\<open>%\<close> truncates (the remainder has the sign of the dividend).
\<close>

definition is_int64 :: "int \<Rightarrow> bool" where
  "is_int64 n = (- (2 ^ 63) \<le> n \<and> n < 2 ^ 63)"

definition wrap64 :: "int \<Rightarrow> int" where
  "wrap64 x = (x + 2 ^ 63) mod 2 ^ 64 - 2 ^ 63"

definition go_rem :: "int \<Rightarrow> int \<Rightarrow> int" where
  "go_rem a b = sgn a * (\<bar>a\<bar> mod \<bar>b\<bar>)"

text \<open>
  The two loops of \<^verbatim>\<open>Simpson\<close>,
  \<^verbatim>\<open>for i = 1; i < n; i += 2 { s += 4 * f(inf+float64(i)*h) }\<close> and
  \<^verbatim>\<open>for j = 2; j < n-1; j += 2 { s += 2 * f(inf+float64(j)*h) }\<close>: the factor \<open>c\<close>, the bound
  and the first index are the parameters. Nothing bounds the number of rounds once the
  counter wraps, so not returning is the value \<open>None\<close>.
\<close>

partial_function (option) simpson_sum ::
  "(f64 \<Rightarrow> f64) \<Rightarrow> f64 \<Rightarrow> f64 \<Rightarrow> f64 \<Rightarrow> int \<Rightarrow> int \<Rightarrow> f64 \<Rightarrow> f64 option" where
  "simpson_sum f inf' h c bound i s =
     (if i < bound
      then simpson_sum f inf' h c bound (wrap64 (i + 2))
             (fadd s (fmul c (f (fadd inf' (fmul (float64 i) h)))))
      else Some s)"

declare simpson_sum.simps [code]

definition Simpson :: "f64 \<Rightarrow> f64 \<Rightarrow> (f64 \<Rightarrow> f64) \<Rightarrow> int \<Rightarrow> (error + f64) option" where
  "Simpson inf' sup' f n =
     (if go_rem n 2 \<noteq> 0
      then Some (Inl (errorMessage
        ''Invalid number of iterations, for simpson, iterations number has to be even''))
      else (let h = fdiv (fsub sup' inf') (float64 n); s = fadd (f inf') (f sup') in
            case simpson_sum f inf' h (float64 4) n 1 s of
              None \<Rightarrow> None
            | Some s1 \<Rightarrow>
                (case simpson_sum f inf' h (float64 2) (wrap64 (n - 1)) 2 s1 of
                   None \<Rightarrow> None
                 | Some s2 \<Rightarrow> Some (Inr (fdiv (fmul s2 h) (float64 3))))))"


section \<open>Evaluation\<close>

lemma bitlen_numeral [simp]:
  "bitlen 0 = 0"
  "bitlen 1 = 1"
  "bitlen (numeral (Num.Bit0 n)) = 1 + bitlen (numeral n)"
  "bitlen (numeral (Num.Bit1 n)) = 1 + bitlen (numeral n)"
  by (simp_all add: bitlen.simps [of 0] bitlen.simps [of 1]
      bitlen.simps [of "numeral (Num.Bit0 n)"] bitlen.simps [of "numeral (Num.Bit1 n)"])

lemma norm_numeral [simp]:
  "norm 0 e = (0, 0)"
  "norm 1 e = (1, e)"
  "norm (numeral (Num.Bit0 n)) e = norm (numeral n) (e + 1)"
  "norm (numeral (Num.Bit1 n)) e = (numeral (Num.Bit1 n), e)"
  by (simp_all add: norm.simps [of 0] norm.simps [of 1]
      norm.simps [of "numeral (Num.Bit0 n)"] norm.simps [of "numeral (Num.Bit1 n)"])

lemmas f64_eval = zero_f64_def one_f64_def fsub_def rnd_def finish_def sval_def float64_def Let_def

lemma uint_small: "x < 2 ^ 64 \<Longrightarrow> uint x = x"
  by (simp add: uint_def)

lemma usub_small:
  assumes "b \<le> a" and "a < 2 ^ 64"
  shows "usub a b = a - b"
proof -
  let ?w = "2 ^ 64 :: nat"
  have b: "b mod ?w = b" using assms by simp
  have 1: "?w \<le> a + (?w - b)" using assms by simp
  have 2: "a + (?w - b) - ?w = a - b" using assms by simp
  have "(a + (?w - b)) mod ?w = (a + (?w - b) - ?w) mod ?w" using 1 by (rule le_mod_geq)
  also have "\<dots> = a - b" using assms unfolding 2 by simp
  finally show ?thesis by (simp only: usub_def b)
qed

lemma to_int_small: "x < 2 ^ 63 \<Longrightarrow> to_int x = int x"
  by (simp add: to_int_def)

lemma make_small: "n < 2 ^ 63 \<Longrightarrow> make_slice n = Inr (replicate n 0)"
  by (simp add: make_slice_def)

lemma replicate_num: "replicate (numeral k) x = x # replicate (pred_numeral k) x"
  by (simp add: numeral_eq_Suc)

lemma list_update_num: "(x # xs)[numeral k := v] = x # xs[pred_numeral k := v]"
  by (simp add: numeral_eq_Suc)

lemma bind_simps [simp]:
  "bind (Inl e) f = Inl e"
  "bind (Inr v) f = f v"
  by (simp_all add: bind_def)

lemmas matrix_eval = NewMatrix_def make_small uint_small usub_small to_int_small Set_def Get_def
  index_read_def index_write_def index_read_int_def matrix_of_def replicate_num list_update_num

lemma for_loop_step: "lo < hi \<Longrightarrow> for_loop lo hi body s = bind (body lo s) (for_loop (Suc lo) hi body)"
  by (simp add: for_loop.simps [of lo])

lemma for_loop_stop [simp]: "\<not> lo < hi \<Longrightarrow> for_loop lo hi body s = Inr s"
  by (simp add: for_loop.simps [of lo])

lemma for_down_step: "0 \<le> i \<Longrightarrow> for_down i body s = bind (body i s) (for_down (i - 1) body)"
  by (simp add: for_down.simps [of i])

lemma for_down_stop [simp]: "\<not> 0 \<le> i \<Longrightarrow> for_down i body s = Inr s"
  by (simp add: for_down.simps [of i])

lemmas lu_eval = LUDecomposition_def lu_upper_def lu_lower_def lu_sum_def IsSquare_def
  diagonal_product_def Determinant_def determinantLU_def for_loop_step

lemmas inverse_eval = Inverse_def NewIdentity_def GetColumn_def forward_column_def
  backward_column_def for_down_step


section \<open>Loop invariants\<close>

lemma for_loop_rule:
  assumes "I lo s" and "lo \<le> hi"
    and "\<And>i s. lo \<le> i \<Longrightarrow> i < hi \<Longrightarrow> I i s \<Longrightarrow> \<exists>s'. body i s = Inr s' \<and> I (Suc i) s'"
  shows "\<exists>s'. for_loop lo hi body s = Inr s' \<and> I hi s'"
  using assms
proof (induction "hi - lo" arbitrary: lo s)
  case 0
  then show ?case by simp
next
  case (Suc d)
  then have lt: "lo < hi" by simp
  from Suc.prems(3) [of lo s] lt Suc.prems(1)
  obtain s1 where s1: "body lo s = Inr s1" "I (Suc lo) s1" by auto
  have "\<exists>s'. for_loop (Suc lo) hi body s1 = Inr s' \<and> I hi s'"
  proof (rule Suc.hyps(1))
    show "d = hi - Suc lo" using Suc.hyps(2) by simp
    show "I (Suc lo) s1" by (rule s1)
    show "Suc lo \<le> hi" using lt by simp
    show "\<And>i s. Suc lo \<le> i \<Longrightarrow> i < hi \<Longrightarrow> I i s \<Longrightarrow> \<exists>s'. body i s = Inr s' \<and> I (Suc i) s'"
      using Suc.prems(3) by simp
  qed
  then show ?case using lt s1 by (simp add: for_loop_step)
qed

lemma for_loop_partial:
  assumes "for_loop lo hi body s = Inr s'" and "I lo s" and "lo \<le> hi"
    and "\<And>i s t. lo \<le> i \<Longrightarrow> i < hi \<Longrightarrow> I i s \<Longrightarrow> body i s = Inr t \<Longrightarrow> I (Suc i) t"
  shows "I hi s'"
  using assms
proof (induction "hi - lo" arbitrary: lo s)
  case 0
  then show ?case by simp
next
  case (Suc d)
  then have lt: "lo < hi" by simp
  from Suc.prems(1) lt obtain s1 where s1: "body lo s = Inr s1" "for_loop (Suc lo) hi body s1 = Inr s'"
    by (cases "body lo s") (auto simp: for_loop_step)
  have "I (Suc lo) s1" using Suc.prems(4) [of lo s s1] lt Suc.prems(2) s1 by simp
  show ?case
  proof (rule Suc.hyps(1) [of "Suc lo" s1])
    show "d = hi - Suc lo" using Suc.hyps(2) by simp
    show "for_loop (Suc lo) hi body s1 = Inr s'" by (rule s1)
    show "I (Suc lo) s1" by fact
    show "Suc lo \<le> hi" using lt by simp
    show "\<And>i s t. Suc lo \<le> i \<Longrightarrow> i < hi \<Longrightarrow> I i s \<Longrightarrow> body i s = Inr t \<Longrightarrow> I (Suc i) t"
      using Suc.prems(4) by simp
  qed
qed

lemma for_loop_empty [simp]: "for_loop lo lo body s = Inr s"
  by simp

lemma rnd_zero [simp]: "rnd s 0 e = Fin s 0 0"
  by (simp add: rnd_def)

section \<open>Indices that do not wrap\<close>

lemma index_bound: "r < R \<Longrightarrow> c < C \<Longrightarrow> r * C + c < R * (C::nat)"
proof -
  assume r: "r < R" and c: "c < C"
  have "r * C + c < r * C + C" using c by simp
  also have "\<dots> = Suc r * C" by simp
  also have "\<dots> \<le> R * C" using r by (intro mult_le_mono1) simp
  finally show ?thesis .
qed

lemma index_uint:
  assumes "r < R" and "c < C" and "R * C < 2 ^ 63"
  shows "uint (r * C + c) = r * C + c"
proof -
  have "r * C + c < R * C" using assms(1,2) by (rule index_bound)
  also have "\<dots> < 2 ^ 64" using assms(3) by simp
  finally show ?thesis by (rule uint_small)
qed

lemma count_bound:
  assumes "r < R" and "R * C < 2 ^ 63"
  shows "(C::nat) < 2 ^ 63"
proof -
  have "1 \<le> R" using assms(1) by simp
  then have "1 * C \<le> R * C" by (rule mult_le_mono1)
  then have "C \<le> R * C" by simp
  then show ?thesis using assms(2) by (rule le_less_trans)
qed

lemma square_bound:
  assumes "r < n" and "n * n < 2 ^ 63"
  shows "(n::nat) < 2 ^ 63"
  using assms by (rule count_bound)

lemma NewMatrix_eq: "rows * cols < 2 ^ 63 \<Longrightarrow> NewMatrix rows cols = Inr (zeros rows cols)"
  by (simp add: NewMatrix_def zeros_def make_small uint_small)

lemma shaped_zeros [simp]: "R * C < 2 ^ 63 \<Longrightarrow> shaped R C (zeros R C)"
  by (simp add: shaped_def zeros_def)

lemma zeros_fields [simp]:
  "NumberOfRows (zeros R C) = R" "NumberOfColumns (zeros R C) = C" "M_reserve (zeros R C) = []"
  "M (zeros R C) = replicate (R * C) 0"
  by (simp_all add: zeros_def)

section \<open>ScalarMultiply\<close>

lemma fmul_zero_finite: "feq x 0 \<Longrightarrow> is_finite k \<Longrightarrow> feq (fmul x k) 0"
  by (cases x; cases k) (auto simp: zero_f64_def)

lemma scalar_step_zero:
  assumes "is_finite k" and "all_zero res"
    and "bind (index_read (M res) (uint (row * NumberOfColumns res + col)))
           (\<lambda>r. Set res row col (fmul r k)) = Inr t"
  shows "all_zero t"
proof -
  let ?i = "uint (row * NumberOfColumns res + col)"
  from assms(3) have lt: "?i < length (M res)"
    by (auto simp: index_read_def split: if_splits)
  then have t: "t = res\<lparr>M := (M res)[?i := fmul (M res ! ?i) k]\<rparr>"
    using assms(3) by (simp add: index_read_def Set_def index_write_def)
  have "feq (M res ! ?i) 0" using assms(2) lt by (simp add: all_zero_def list_all_length)
  then have "feq (fmul (M res ! ?i) k) 0" using assms(1) by (rule fmul_zero_finite)
  then show ?thesis using assms(2) lt unfolding t all_zero_def list_all_length
    by (auto simp: nth_list_update)
qed

lemma NewMatrix_all_zero:
  assumes "NewMatrix rows cols = Inr (m0 :: f64 Matrix)"
  shows "all_zero m0"
proof -
  from assms have "M m0 = replicate (uint (rows * cols)) 0"
    by (auto simp: NewMatrix_def make_slice_def split: if_splits)
  then show ?thesis by (simp add: all_zero_def list_all_length zero_f64_def)
qed

lemma ScalarMultiply_all_zero:
  assumes "is_finite k" and "ScalarMultiply m k = Inr r"
  shows "all_zero r"
proof -
  from assms(2) obtain m0 :: "f64 Matrix"
    where m0: "NewMatrix (NumberOfColumns m) (NumberOfRows m) = Inr m0"
      and loop: "for_loop 0 (NumberOfRows m)
         (\<lambda>row. for_loop 0 (NumberOfColumns m)
           (\<lambda>col result.
              bind (index_read (M result) (uint (row * NumberOfColumns result + col))) (\<lambda>r.
              Set result row col (fmul r k)))) m0 = Inr r"
    unfolding ScalarMultiply_def
    by (cases "NewMatrix (NumberOfColumns m) (NumberOfRows m) :: error + f64 Matrix") simp_all
  have init: "all_zero m0" using m0 by (rule NewMatrix_all_zero)
  show ?thesis
  proof (rule for_loop_partial [where I = "\<lambda>_. all_zero", OF loop init])
    show "0 \<le> NumberOfRows m" by simp
  next
    fix row s t
    assume s: "all_zero s"
      and b: "for_loop 0 (NumberOfColumns m)
           (\<lambda>col result. bind (index_read (M result) (uint (row * NumberOfColumns result + col)))
              (\<lambda>r. Set result row col (fmul r k))) s = Inr t"
    show "all_zero t"
      by (rule for_loop_partial [where I = "\<lambda>_. all_zero", OF b s])
        (auto intro: scalar_step_zero [OF assms(1)])
  qed
qed

lemma ScalarMultiply_returns:
  assumes "NumberOfRows m \<le> NumberOfColumns m"
    and fit: "NumberOfColumns m * NumberOfRows m < 2 ^ 63"
  shows "\<exists>r. ScalarMultiply m k = Inr r \<and> shaped (NumberOfColumns m) (NumberOfRows m) r"
proof -
  let ?R = "NumberOfRows m" and ?C = "NumberOfColumns m"
  have "\<exists>r. for_loop 0 ?R
         (\<lambda>row. for_loop 0 ?C
           (\<lambda>col result.
              bind (index_read (M result) (uint (row * NumberOfColumns result + col))) (\<lambda>r.
              Set result row col (fmul r k)))) (zeros ?C ?R) = Inr r \<and> shaped ?C ?R r"
  proof (rule for_loop_rule [where I = "\<lambda>_. shaped ?C ?R"])
    fix row and s :: "f64 Matrix"
    assume row: "row < ?R" and s: "shaped ?C ?R s"
    show "\<exists>s'. for_loop 0 ?C
           (\<lambda>col result. bind (index_read (M result) (uint (row * NumberOfColumns result + col)))
              (\<lambda>r. Set result row col (fmul r k))) s = Inr s' \<and> shaped ?C ?R s'"
    proof (rule for_loop_rule [where I = "\<lambda>_. shaped ?C ?R"])
      fix col and t :: "f64 Matrix"
      assume col: "col < ?C" and t: "shaped ?C ?R t"
      have "row * ?R + col \<le> row * ?C + col"
        using assms(1) by simp
      also have "\<dots> < ?R * ?C"
        using row col by (rule index_bound)
      finally have lt: "row * ?R + col < ?C * ?R" by (simp add: mult.commute)
      then have "row * ?R + col < 2 ^ 64" using fit by simp
      then have "uint (row * NumberOfColumns t + col) = row * ?R + col"
        using t by (simp add: shaped_def uint_small)
      then show "\<exists>s'. bind (index_read (M t) (uint (row * NumberOfColumns t + col)))
               (\<lambda>r. Set t row col (fmul r k)) = Inr s' \<and> shaped ?C ?R s'"
        using t lt by (simp add: index_read_def Set_def index_write_def shaped_def)
    qed (simp_all add: s)
  qed (use fit in simp_all)
  then show ?thesis by (simp add: ScalarMultiply_def NewMatrix_eq [OF fit])
qed

text \<open>
  C4, as stated: every element of the matrix that \<^verbatim>\<open>ScalarMultiply\<close> returns is 0.0, whatever
  the scalar. It fails for a scalar that is an infinity or a NaN, since \<open>0 * \<infinity>\<close> is a NaN:
  the 1 by 1 matrix holding 7, multiplied by \<open>+\<infinity>\<close>, comes back holding a NaN, which does not
  compare equal to 0.0.
\<close>

theorem ScalarMultiply_infinity_counterexample:
  "ScalarMultiply (matrix_of 1 1 [7]) (Inf False)
     = Inr \<lparr>NumberOfRows = 1, NumberOfColumns = 1, M = [NaN], M_reserve = []\<rparr>
   \<and> \<not> feq NaN 0"
  by (simp add: ScalarMultiply_def matrix_eval for_loop_step f64_eval)

text \<open>
  C4, amended: for a finite scalar, every element of a matrix that \<^verbatim>\<open>ScalarMultiply\<close> returns
  compares equal to 0.0 (it is +0.0 or -0.0), whatever the matrix holds; and the call does
  return a matrix, of the transposed shape, when the matrix has no more rows than columns
  and \<open>cols * rows\<close> is the length of a slice (below \<open>2^63\<close>).
\<close>

theorem ScalarMultiply_finite_scalar_zero:
  "(NumberOfRows m \<le> NumberOfColumns m \<and> NumberOfColumns m * NumberOfRows m < 2 ^ 63 \<longrightarrow>
      (\<exists>r. ScalarMultiply m k = Inr r \<and> shaped (NumberOfColumns m) (NumberOfRows m) r))
   \<and> (is_finite k \<and> ScalarMultiply m k = Inr r \<longrightarrow> (\<forall>x \<in> set (M r). feq x 0))"
  using ScalarMultiply_returns [of m k] ScalarMultiply_all_zero [of k m r]
  by (auto simp: all_zero_def list_all_iff)

theorem ScalarMultiply_finite_scalar_zero_witness:
  "NumberOfRows (matrix_of 1 2 [5, 7]) \<le> NumberOfColumns (matrix_of 1 2 [5, 7])
   \<and> NumberOfColumns (matrix_of 1 2 [5, 7]) * NumberOfRows (matrix_of 1 2 [5, 7]) < 2 ^ 63
   \<and> is_finite (float64 (- 3))
   \<and> ScalarMultiply (matrix_of 1 2 [5, 7]) (float64 (- 3))
       = Inr \<lparr>NumberOfRows = 2, NumberOfColumns = 1, M = [Fin True 0 0, Fin True 0 0],
              M_reserve = []\<rparr>
   \<and> feq (Fin True 0 0) 0"
proof -
  have e: "ScalarMultiply (matrix_of 1 2 [5, 7]) (float64 (- 3))
       = Inr \<lparr>NumberOfRows = 2, NumberOfColumns = 1, M = [Fin True 0 0, Fin True 0 0],
              M_reserve = []\<rparr>"
    by (simp add: ScalarMultiply_def matrix_eval for_loop_step f64_eval)
  have f: "is_finite (float64 (- 3))"
    by (simp add: f64_eval)
  from ScalarMultiply_finite_scalar_zero [of "matrix_of 1 2 [5, 7]" "float64 (- 3)"
      "\<lparr>NumberOfRows = 2, NumberOfColumns = 1, M = [Fin True 0 0, Fin True 0 0], M_reserve = []\<rparr>"]
    e f
  show ?thesis by (simp add: matrix_of_def)
qed

section \<open>Add and Subtract\<close>

text \<open>
  C6: \<^verbatim>\<open>Add\<close> of two matrices of one shape returns their element-wise sum, in that shape.
  The code allocates its result with \<^verbatim>\<open>NewMatrix(m.NumberOfColumns, m.NumberOfRows)\<close>, rows and
  columns exchanged. On a 2 by 3 matrix the result is 3 by 2, the sum 33 of the entries
  at (0, 2) is overwritten by the sum 44 of the entries at (1, 0), and the last element
  stays 0.
\<close>

theorem Add_2x3_result:
  "Add (matrix_of 2 3 [1, 2, 3, 4, 5, 6]) (matrix_of 2 3 [10, 20, 30, 40, 50, 60])
     = Inr (matrix_of 3 2 [11, 22, 44, 55, 66, 0])"
  by (simp add: Add_def matrix_eval for_loop_step f64_eval)

theorem Add_2x3_result_entry:
  "bind (Add (matrix_of 2 3 [1, 2, 3, 4, 5, 6]) (matrix_of 2 3 [10, 20, 30, 40, 50, 60]))
     (\<lambda>r. Get r 0 2) = Inr (float64 44)
   \<and> fadd (float64 3) (float64 30) = float64 33"
  using Add_2x3_result by (simp add: matrix_eval f64_eval)

text \<open>
  C5: \<^verbatim>\<open>Subtract\<close> of two matrices of one shape returns their element-wise difference.
  The code adds \<^verbatim>\<open>in.Neg()\<close>, which is \<^verbatim>\<open>ScalarMultiply(-1.0)\<close>: a matrix of zeros of the
  transposed shape. So [5] - [3] is [5], and on the 1 by 2 matrices [5 7] and [3 4]
  the call fails with the error of \<^verbatim>\<open>Add\<close> for different shapes.
\<close>

theorem Subtract_ignores_subtrahend:
  "Subtract (matrix_of 1 1 [5]) (matrix_of 1 1 [3]) = Inr (matrix_of 1 1 [5])
   \<and> Subtract (matrix_of 1 2 [5, 7]) (matrix_of 1 2 [3, 4]) = Inl errorCannotAdd"
  by (simp add: Subtract_def Neg_def ScalarMultiply_def Add_def matrix_eval for_loop_step f64_eval)

theorem Subtract_ignores_subtrahend_entry:
  "bind (Subtract (matrix_of 1 1 [5]) (matrix_of 1 1 [3])) (\<lambda>r. Get r 0 0) = Inr (float64 5)
   \<and> fsub (float64 5) (float64 3) = float64 2"
  using Subtract_ignores_subtrahend by (simp add: matrix_eval f64_eval)

section \<open>SubMatrix\<close>

text \<open>
  C8: where the block starts in row 0, or is as wide as the matrix, \<^verbatim>\<open>SubMatrix\<close> returns the
  true block. The code reslices the buffer from the block's first element, so row \<open>r\<close> of the
  result starts \<open>r * numberCols\<close> elements later, not \<open>r * NumberOfColumns\<close>. On the 3 by 3
  matrix of the doc comment, the 2 by 2 block at (0, 0) is [1 2; 4 5], and the code
  returns the first eight elements, read as [1 2; 3 4]. The whole matrix as a block
  (3 columns wide) asks for a slice up to 12 of a buffer of 9, and panics.
\<close>

theorem SubMatrix_top_left_block:
  "SubMatrix (matrix_of 3 3 [1, 2, 3, 4, 5, 6, 7, 8, 9]) 0 0 2 2
     = Inr \<lparr>NumberOfRows = 2, NumberOfColumns = 2, M = map float64 [1, 2, 3, 4, 5, 6, 7, 8],
            M_reserve = [float64 9]\<rparr>
   \<and> SubMatrix (matrix_of 3 3 [1, 2, 3, 4, 5, 6, 7, 8, 9]) 0 0 3 3 = Inl runtimePanic"
  by (simp add: SubMatrix_def matrix_eval)

theorem SubMatrix_top_left_block_entry:
  "bind (SubMatrix (matrix_of 3 3 [1, 2, 3, 4, 5, 6, 7, 8, 9]) 0 0 2 2) (\<lambda>s. Get s 1 0)
     = Inr (float64 3)
   \<and> Get (matrix_of 3 3 [1, 2, 3, 4, 5, 6, 7, 8, 9]) 1 0 = Inr (float64 4)"
  using SubMatrix_top_left_block by (simp add: matrix_eval)


section \<open>Reading and writing a matrix of a known shape\<close>

lemma index_inj:
  assumes "c < n" "c' < n" "r * n + c = r' * n + (c'::nat)"
  shows "r = r' \<and> c = c'"
proof -
  have "(r * n + c) div n = (r' * n + c') div n" using assms(3) by simp
  then have "r = r'" using assms(1,2) by simp
  then show ?thesis using assms(3) by simp
qed

lemma Get_shaped: "shaped R C m \<Longrightarrow> r < R \<Longrightarrow> c < C \<Longrightarrow> Get m r c = Inr (entry m r c)"
  by (simp add: Get_def index_read_def entry_def shaped_def index_bound index_uint)

lemma read_shaped:
  "shaped R C m \<Longrightarrow> r < R \<Longrightarrow> c < C \<Longrightarrow>
     index_read (M m) (uint (r * C + c)) = Inr (entry m r c)"
  by (simp add: index_read_def entry_def shaped_def index_bound index_uint)

lemma Set_shaped:
  assumes "shaped R C m" "r < R" "c < C"
  shows "Set m r c v = Inr (m\<lparr>M := (M m)[r * C + c := v]\<rparr>)"
    and "shaped R C (m\<lparr>M := (M m)[r * C + c := v]\<rparr>)"
    and "\<And>r' c'. c' < C \<Longrightarrow> entry (m\<lparr>M := (M m)[r * C + c := v]\<rparr>) r' c'
           = (if r' = r \<and> c' = c then v else entry m r' c')"
proof -
  have lt: "r * C + c < length (M m)" using assms by (simp add: shaped_def index_bound)
  have u: "uint (r * C + c) = r * C + c" using assms by (simp add: shaped_def index_uint)
  show "Set m r c v = Inr (m\<lparr>M := (M m)[r * C + c := v]\<rparr>)"
    using lt u assms(1) by (simp add: Set_def index_write_def shaped_def)
  show "shaped R C (m\<lparr>M := (M m)[r * C + c := v]\<rparr>)"
    using assms(1) by (simp add: shaped_def)
  fix r' c' assume c': "c' < C"
  show "entry (m\<lparr>M := (M m)[r * C + c := v]\<rparr>) r' c' = (if r' = r \<and> c' = c then v else entry m r' c')"
  proof (cases "r' = r \<and> c' = c")
    case True
    then show ?thesis using lt assms(1) by (simp add: entry_def shaped_def)
  next
    case False
    then have "r * C + c \<noteq> r' * C + c'" using index_inj [OF assms(3) c'] by blast
    then show ?thesis using False assms(1) by (auto simp: entry_def shaped_def)
  qed
qed

section \<open>Sums of products\<close>

lemma dot_Nil [simp]: "dot [] x y = 0"
  by (simp add: dot_def)

lemma dot_snoc: "dot (js @ [j]) x y = fadd (dot js x y) (fmul (x j) (y j))"
  by (simp add: dot_def)

lemma dot_cong:
  assumes "\<And>j. j \<in> set js \<Longrightarrow> x j = x' j" and "\<And>j. j \<in> set js \<Longrightarrow> y j = y' j"
  shows "dot js x y = dot js x' y'"
  unfolding dot_def using assms by (intro foldl_cong) simp_all

lemma doolittle_U_cong:
  assumes "\<And>j. j < i \<Longrightarrow> entry l' i j = entry l i j"
    and "\<And>j. j < i \<Longrightarrow> entry u' j k = entry u j k"
  shows "doolittle_U m l' u' i k = doolittle_U m l u i k"
proof -
  have "dot [0..<i] (entry l' i) (\<lambda>j. entry u' j k) = dot [0..<i] (entry l i) (\<lambda>j. entry u j k)"
    using assms by (intro dot_cong) simp_all
  then show ?thesis by (simp add: doolittle_U_def)
qed

lemma doolittle_L_cong:
  assumes "\<And>j. j < i \<Longrightarrow> entry l' k j = entry l k j"
    and "\<And>j. j \<le> i \<Longrightarrow> entry u' j i = entry u j i"
  shows "doolittle_L m l' u' k i = doolittle_L m l u k i"
proof -
  have "dot [0..<i] (entry l' k) (\<lambda>j. entry u' j i) = dot [0..<i] (entry l k) (\<lambda>j. entry u j i)"
    using assms by (intro dot_cong) simp_all
  then show ?thesis using assms(2) [of i] by (simp add: doolittle_L_def)
qed

section \<open>LUDecomposition follows the Doolittle recursion\<close>

lemma lu_sum_eq:
  assumes l: "shaped n n l" and u: "shaped n n u" and i: "i \<le> n" and a: "a < n" and b: "b < n"
  shows "lu_sum l u i a b = Inr (dot [0..<i] (entry l a) (\<lambda>j. entry u j b))"
proof -
  have lc: "NumberOfColumns l = n" and uc: "NumberOfColumns u = n"
    using l u by (simp_all add: shaped_def)
  have "\<exists>s'. for_loop 0 i
       (\<lambda>j sum. bind (index_read (M l) (uint (a * n + j))) (\<lambda>x.
                bind (index_read (M u) (uint (j * n + b))) (\<lambda>y.
                Inr (fadd sum (fmul x y))))) 0 = Inr s'
          \<and> s' = dot [0..<i] (entry l a) (\<lambda>j. entry u j b)"
  proof (rule for_loop_rule [where I = "\<lambda>j s. s = dot [0..<j] (entry l a) (\<lambda>j. entry u j b)"])
    fix j and s :: f64
    assume j: "j < i" and s: "s = dot [0..<j] (entry l a) (\<lambda>j. entry u j b)"
    then have jn: "j < n" using i by simp
    show "\<exists>s'. bind (index_read (M l) (uint (a * n + j))) (\<lambda>x.
                bind (index_read (M u) (uint (j * n + b))) (\<lambda>y.
                Inr (fadd s (fmul x y)))) = Inr s'
            \<and> s' = dot [0..<Suc j] (entry l a) (\<lambda>j. entry u j b)"
      using read_shaped [OF l a jn] read_shaped [OF u jn b] s by (simp add: dot_snoc)
  qed simp_all
  then show ?thesis by (simp add: lu_sum_def lc uc)
qed

lemma lu_upper_spec:
  assumes m: "shaped n n m" and l: "shaped n n l" and u: "upper n u" and i: "i < n"
  shows "\<exists>u'. lu_upper m l i u = Inr u' \<and> upper n u'
           \<and> (\<forall>r<n. \<forall>c<n. r \<noteq> i \<longrightarrow> entry u' r c = entry u r c)
           \<and> (\<forall>c<n. i \<le> c \<longrightarrow> entry u' i c = doolittle_U m l u i c)"
proof -
  have mc: "NumberOfColumns m = n" using m by (simp add: shaped_def)
  let ?I = "\<lambda>k s. upper n s
           \<and> (\<forall>r<n. \<forall>c<n. r \<noteq> i \<longrightarrow> entry s r c = entry u r c)
           \<and> (\<forall>c<k. i \<le> c \<longrightarrow> entry s i c = doolittle_U m l u i c)"
  have "\<exists>u'. for_loop i n
          (\<lambda>k u. bind (lu_sum l u i i k) (\<lambda>sum. bind (index_read (M m) (uint (i * n + k)))
             (\<lambda>a. Set u i k (fsub a sum)))) u = Inr u' \<and> ?I n u'"
  proof (rule for_loop_rule [where I = ?I])
    show "?I i u" using u by simp
    show "i \<le> n" using i by simp
    fix k and s :: "f64 Matrix"
    assume k: "i \<le> k" "k < n" and s: "?I k s"
    then have up: "upper n s" and sh: "shaped n n s" by (simp_all add: upper_def)
    from s have frame: "\<And>r c. r < n \<Longrightarrow> c < n \<Longrightarrow> r \<noteq> i \<Longrightarrow> entry s r c = entry u r c"
      and filled_in: "\<And>c. c < k \<Longrightarrow> i \<le> c \<Longrightarrow> entry s i c = doolittle_U m l u i c"
      by simp_all
    have "dot [0..<i] (entry l i) (\<lambda>j. entry s j k) = dot [0..<i] (entry l i) (\<lambda>j. entry u j k)"
      using frame i k(2) by (intro dot_cong) simp_all
    then have sum: "lu_sum l s i i k = Inr (dot [0..<i] (entry l i) (\<lambda>j. entry u j k))"
      using lu_sum_eq [OF l sh less_imp_le [OF i] i k(2)] by simp
    let ?v = "doolittle_U m l u i k"
    let ?s' = "s\<lparr>M := (M s)[i * n + k := ?v]\<rparr>"
    have e: "\<And>r c. c < n \<Longrightarrow> entry ?s' r c = (if r = i \<and> c = k then ?v else entry s r c)"
      by (rule Set_shaped(3) [OF sh i k(2)])
    have "upper n ?s'"
      unfolding upper_def
    proof (intro conjI allI impI)
      show "shaped n n ?s'" by (rule Set_shaped(2) [OF sh i k(2)])
      fix r c assume rc: "r < n" "c < n" "c < r"
      then have "\<not> (r = i \<and> c = k)" using k by auto
      then show "entry ?s' r c = 0" using e [OF rc(2)] up rc by (auto simp: upper_def)
    qed
    moreover have "\<forall>r<n. \<forall>c<n. r \<noteq> i \<longrightarrow> entry ?s' r c = entry u r c"
      using e frame by simp
    moreover have "\<forall>c<Suc k. i \<le> c \<longrightarrow> entry ?s' i c = doolittle_U m l u i c"
      using e filled_in k(2) by (auto simp: less_Suc_eq)
    moreover have "bind (lu_sum l s i i k) (\<lambda>sum. bind (index_read (M m) (uint (i * n + k)))
             (\<lambda>a. Set s i k (fsub a sum))) = Inr ?s'"
      using sum read_shaped [OF m i k(2)] Set_shaped(1) [OF sh i k(2)]
      by (simp add: doolittle_U_def)
    ultimately show "\<exists>s'. bind (lu_sum l s i i k) (\<lambda>sum. bind (index_read (M m) (uint (i * n + k)))
             (\<lambda>a. Set s i k (fsub a sum))) = Inr s' \<and> ?I (Suc k) s'"
      by blast
  qed
  then show ?thesis unfolding lu_upper_def mc by blast
qed

lemma lu_lower_spec:
  assumes m: "shaped n n m" and u: "shaped n n u" and l: "lower_unit n i l" and i: "i < n"
  shows "\<exists>l'. lu_lower m u i l = Inr l' \<and> lower_unit n (Suc i) l'
           \<and> (\<forall>r<n. \<forall>c<n. c \<noteq> i \<longrightarrow> entry l' r c = entry l r c)
           \<and> (\<forall>r<n. i < r \<longrightarrow> entry l' r i = doolittle_L m l u r i)"
proof -
  have mc: "NumberOfColumns m = n" using m by (simp add: shaped_def)
  have uc: "NumberOfColumns u = n" using u by (simp add: shaped_def)
  let ?I = "\<lambda>k s. lower_unit n (if i < k then Suc i else i) s
           \<and> (\<forall>r<n. \<forall>c<n. c \<noteq> i \<longrightarrow> entry s r c = entry l r c)
           \<and> (\<forall>r<k. i < r \<longrightarrow> entry s r i = doolittle_L m l u r i)"
  have "\<exists>l'. for_loop i n
          (\<lambda>k l. if i = k then Set l i i 1
                  else bind (lu_sum l u i k i) (\<lambda>sum. bind (index_read (M m) (uint (k * n + i)))
                    (\<lambda>a. bind (index_read (M u) (uint (i * n + i)))
                      (\<lambda>d. Set l k i (fdiv (fsub a sum) d)))))
          l = Inr l' \<and> ?I n l'"
  proof (rule for_loop_rule [where I = ?I])
    show "?I i l" using l by simp
    show "i \<le> n" using i by simp
    fix k and s :: "f64 Matrix"
    assume k: "i \<le> k" "k < n" and s: "?I k s"
    then have lo: "lower_unit n (if i < k then Suc i else i) s" by simp
    then have sh: "shaped n n s" by (simp add: lower_unit_def split: if_splits)
    from s have frame: "\<And>r c. r < n \<Longrightarrow> c < n \<Longrightarrow> c \<noteq> i \<Longrightarrow> entry s r c = entry l r c"
      and filled_in: "\<And>r. r < k \<Longrightarrow> i < r \<Longrightarrow> entry s r i = doolittle_L m l u r i"
      by simp_all
    show "\<exists>s'. (if i = k then Set s i i 1
                  else bind (lu_sum s u i k i) (\<lambda>sum. bind (index_read (M m) (uint (k * n + i)))
                    (\<lambda>a. bind (index_read (M u) (uint (i * n + i)))
                      (\<lambda>d. Set s k i (fdiv (fsub a sum) d)))))
             = Inr s' \<and> ?I (Suc k) s'"
    proof (cases "i = k")
      case True
      let ?s' = "s\<lparr>M := (M s)[i * n + i := 1]\<rparr>"
      have e: "\<And>r c. c < n \<Longrightarrow> entry ?s' r c = (if r = i \<and> c = i then 1 else entry s r c)"
        by (rule Set_shaped(3) [OF sh i i])
      have "lower_unit n (Suc i) ?s'"
        unfolding lower_unit_def
      proof (intro conjI allI impI)
        show "shaped n n ?s'" by (rule Set_shaped(2) [OF sh i i])
        fix r c assume rc: "r < n" "c < n" "r < c"
        then show "entry ?s' r c = 0"
          using e [OF rc(2)] lo True by (auto simp: lower_unit_def)
      next
        fix r assume r: "r < Suc i"
        then have "r < n" using i by simp
        then show "entry ?s' r r = 1"
          using e [of r r] lo True r by (auto simp: lower_unit_def less_Suc_eq)
      qed
      moreover have "\<forall>r<n. \<forall>c<n. c \<noteq> i \<longrightarrow> entry ?s' r c = entry l r c"
        using e frame by simp
      moreover have "\<forall>r<Suc k. i < r \<longrightarrow> entry ?s' r i = doolittle_L m l u r i"
        using True by simp
      ultimately show ?thesis using True Set_shaped(1) [OF sh i i] by simp
    next
      case False
      then have ik: "i < k" using k by simp
      have "dot [0..<i] (entry s k) (\<lambda>j. entry u j i) = dot [0..<i] (entry l k) (\<lambda>j. entry u j i)"
        using frame i k(2) by (intro dot_cong) simp_all
      then have sum: "lu_sum s u i k i = Inr (dot [0..<i] (entry l k) (\<lambda>j. entry u j i))"
        using lu_sum_eq [OF sh u less_imp_le [OF i] k(2) i] by simp
      let ?v = "doolittle_L m l u k i"
      let ?s' = "s\<lparr>M := (M s)[k * n + i := ?v]\<rparr>"
      have e: "\<And>r c. c < n \<Longrightarrow> entry ?s' r c = (if r = k \<and> c = i then ?v else entry s r c)"
        by (rule Set_shaped(3) [OF sh k(2) i])
      have "lower_unit n (Suc i) ?s'"
        unfolding lower_unit_def
      proof (intro conjI allI impI)
        show "shaped n n ?s'" by (rule Set_shaped(2) [OF sh k(2) i])
        fix r c assume rc: "r < n" "c < n" "r < c"
        then have "\<not> (r = k \<and> c = i)" using ik by auto
        then show "entry ?s' r c = 0"
          using e [OF rc(2)] lo ik rc by (auto simp: lower_unit_def)
      next
        fix r assume r: "r < Suc i"
        then have rn: "r < n" and "\<not> (r = k \<and> r = i)" using i ik by auto
        then show "entry ?s' r r = 1"
          using e [of r r] lo ik r by (auto simp: lower_unit_def)
      qed
      moreover have "\<forall>r<n. \<forall>c<n. c \<noteq> i \<longrightarrow> entry ?s' r c = entry l r c"
        using e frame by simp
      moreover have "\<forall>r<Suc k. i < r \<longrightarrow> entry ?s' r i = doolittle_L m l u r i"
        using e [OF i] filled_in by (auto simp: less_Suc_eq)
      moreover have "bind (lu_sum s u i k i) (\<lambda>sum. bind (index_read (M m) (uint (k * n + i)))
                    (\<lambda>a. bind (index_read (M u) (uint (i * n + i)))
                      (\<lambda>d. Set s k i (fdiv (fsub a sum) d)))) = Inr ?s'"
        using sum read_shaped [OF m k(2) i] read_shaped [OF u i i] Set_shaped(1) [OF sh k(2) i]
        by (simp add: doolittle_L_def)
      ultimately show ?thesis using False ik by simp
    qed
  qed
  then show ?thesis using i unfolding lu_lower_def mc uc by simp
qed

lemma upper_zeros: "n * n < 2 ^ 63 \<Longrightarrow> upper n (zeros n n)"
  by (simp add: upper_def entry_def index_bound)

lemma lower_unit_zeros: "n * n < 2 ^ 63 \<Longrightarrow> lower_unit n 0 (zeros n n)"
  by (simp add: lower_unit_def entry_def index_bound)

lemma shaped_fit: "shaped R C m \<Longrightarrow> R * C < 2 ^ 63"
  by (simp add: shaped_def)

lemma LUDecomposition_spec:
  assumes m: "shaped n n m"
  shows "\<exists>l u. LUDecomposition m = Inr (l, u) \<and> lower_unit n n l \<and> upper n u
           \<and> (\<forall>i<n. \<forall>k<n. i \<le> k \<longrightarrow> entry u i k = doolittle_U m l u i k)
           \<and> (\<forall>i<n. \<forall>k<n. i < k \<longrightarrow> entry l k i = doolittle_L m l u k i)"
proof -
  have mc: "NumberOfColumns m = n" "NumberOfRows m = n" using m by (simp_all add: shaped_def)
  have fit: "n * n < 2 ^ 63" using m by (rule shaped_fit)
  let ?K = "\<lambda>i l u. lower_unit n i l \<and> upper n u
           \<and> (\<forall>r<i. \<forall>c<n. r \<le> c \<longrightarrow> entry u r c = doolittle_U m l u r c)
           \<and> (\<forall>c<i. \<forall>r<n. c < r \<longrightarrow> entry l r c = doolittle_L m l u r c)"
  have "\<exists>s'. for_loop 0 n (\<lambda>i (l, u). bind (lu_upper m l i u) (\<lambda>u'.
                     bind (lu_lower m u' i l) (\<lambda>l'. Inr (l', u'))))
          (zeros n n, zeros n n) = Inr s' \<and> (case s' of (l, u) \<Rightarrow> ?K n l u)"
  proof (rule for_loop_rule [where I = "\<lambda>i (l, u). ?K i l u"])
    show "case (zeros n n, zeros n n) of (l, u) \<Rightarrow> ?K 0 l u"
      using fit by (simp add: upper_zeros lower_unit_zeros)
    show "0 \<le> n" by simp
    fix i and s :: "f64 Matrix \<times> f64 Matrix"
    assume i: "i < n" and s: "case s of (l, u) \<Rightarrow> ?K i l u"
    obtain l u where lu: "s = (l, u)" by (cases s)
    with s have l: "lower_unit n i l" and u: "upper n u"
      and U: "\<And>r c. r < i \<Longrightarrow> c < n \<Longrightarrow> r \<le> c \<Longrightarrow> entry u r c = doolittle_U m l u r c"
      and L: "\<And>r c. c < i \<Longrightarrow> r < n \<Longrightarrow> c < r \<Longrightarrow> entry l r c = doolittle_L m l u r c"
      by simp_all
    from l have shl: "shaped n n l" by (simp add: lower_unit_def)
    obtain u' where u': "lu_upper m l i u = Inr u'" "upper n u'"
      and fu: "\<And>r c. r < n \<Longrightarrow> c < n \<Longrightarrow> r \<noteq> i \<Longrightarrow> entry u' r c = entry u r c"
      and nu: "\<And>c. c < n \<Longrightarrow> i \<le> c \<Longrightarrow> entry u' i c = doolittle_U m l u i c"
      using lu_upper_spec [OF m shl u i] by blast
    from u'(2) have shu: "shaped n n u'" by (simp add: upper_def)
    obtain l' where l': "lu_lower m u' i l = Inr l'" "lower_unit n (Suc i) l'"
      and fl: "\<And>r c. r < n \<Longrightarrow> c < n \<Longrightarrow> c \<noteq> i \<Longrightarrow> entry l' r c = entry l r c"
      and nl: "\<And>r. r < n \<Longrightarrow> i < r \<Longrightarrow> entry l' r i = doolittle_L m l u' r i"
      using lu_lower_spec [OF m shu l i] by blast
    have U': "entry u' r c = doolittle_U m l' u' r c" if rc: "r < Suc i" "c < n" "r \<le> c" for r c
    proof -
      have rn: "r < n" using rc(1) i by simp
      have "doolittle_U m l' u' r c = doolittle_U m l u r c"
      proof (rule doolittle_U_cong)
        fix j assume "j < r"
        then show "entry l' r j = entry l r j" using rc(1) rn by (intro fl) simp_all
      next
        fix j assume "j < r"
        then show "entry u' j c = entry u j c" using rc(1,2) rn by (intro fu) simp_all
      qed
      moreover have "entry u' r c = doolittle_U m l u r c"
      proof (cases "r = i")
        case True
        then show ?thesis using nu [OF rc(2)] rc(3) by simp
      next
        case False
        then have "r < i" using rc(1) by simp
        then show ?thesis using fu [OF rn rc(2) False] U [OF _ rc(2,3)] by simp
      qed
      ultimately show ?thesis by simp
    qed
    have L': "entry l' r c = doolittle_L m l' u' r c" if rc: "c < Suc i" "r < n" "c < r" for r c
    proof -
      have cn: "c < n" using rc(1) i by simp
      have c1: "doolittle_L m l' u' r c = doolittle_L m l u' r c"
      proof (rule doolittle_L_cong)
        fix j assume "j < c"
        then show "entry l' r j = entry l r j" using rc(1,2) cn by (intro fl) simp_all
      qed simp
      show ?thesis
      proof (cases "c = i")
        case True
        then show ?thesis using nl [OF rc(2)] rc(3) c1 by simp
      next
        case False
        then have ci: "c < i" using rc(1) by simp
        have "doolittle_L m l u' r c = doolittle_L m l u r c"
        proof (rule doolittle_L_cong)
          fix j assume "j \<le> c"
          then show "entry u' j c = entry u j c" using ci cn by (intro fu) simp_all
        qed simp
        then show ?thesis using fl [OF rc(2) cn False] L [OF ci rc(2,3)] c1 by simp
      qed
    qed
    have "?K (Suc i) l' u'" using l'(2) u'(2) U' L' by blast
    then show "\<exists>s'. (case s of (l, u) \<Rightarrow> bind (lu_upper m l i u) (\<lambda>u'.
                     bind (lu_lower m u' i l) (\<lambda>l'. Inr (l', u')))) = Inr s' \<and>
              (case s' of (l, u) \<Rightarrow> ?K (Suc i) l u)"
      using lu u'(1) l'(1) by simp
  qed
  then show ?thesis using mc fit by (auto simp: LUDecomposition_def IsSquare_def NewMatrix_eq)
qed

lemma LUDecomposition_returns:
  assumes "shaped n n m"
  shows "\<exists>l u. LUDecomposition m = Inr (l, u) \<and> lower_unit n n l \<and> upper n u"
  using LUDecomposition_spec [OF assms] by blast


section \<open>Functions that return on matrices of the right shape\<close>

lemma rows_bound:
  assumes "c < C" and "R * C < 2 ^ 63"
  shows "(R::nat) < 2 ^ 63"
  using assms(1) assms(2) [unfolded mult.commute [of R C]] by (rule count_bound)

lemma shaped_to_int:
  assumes "shaped n n m" and "i < n"
  shows "to_int (NumberOfRows m) = int n" "to_int (NumberOfColumns m) = int n"
proof -
  have "n * n < 2 ^ 63" using assms(1) by (rule shaped_fit)
  with assms(2) have "n < 2 ^ 63" by (rule square_bound)
  then show "to_int (NumberOfRows m) = int n" "to_int (NumberOfColumns m) = int n"
    using assms(1) by (simp_all add: shaped_def to_int_small)
qed

lemma for_down_rule:
  assumes "I hi s" and "- 1 \<le> hi"
    and "\<And>i s. 0 \<le> i \<Longrightarrow> i \<le> hi \<Longrightarrow> I i s \<Longrightarrow> \<exists>s'. body i s = Inr s' \<and> I (i - 1) s'"
  shows "\<exists>s'. for_down hi body s = Inr s' \<and> I (- 1) s'"
  using assms
proof (induction "nat (hi + 1)" arbitrary: hi s)
  case 0
  then have "hi = - 1" by simp
  then show ?case using "0.prems"(1) by simp
next
  case (Suc d)
  then have hi: "0 \<le> hi" by simp
  from Suc.prems(3) [of hi s] hi Suc.prems(1)
  obtain s1 where s1: "body hi s = Inr s1" "I (hi - 1) s1" by auto
  have "\<exists>s'. for_down (hi - 1) body s1 = Inr s' \<and> I (- 1) s'"
  proof (rule Suc.hyps(1))
    show "d = nat (hi - 1 + 1)" using Suc.hyps(2) by simp
    show "I (hi - 1) s1" by (rule s1)
    show "- 1 \<le> hi - 1" using hi by simp
    show "\<And>i s. 0 \<le> i \<Longrightarrow> i \<le> hi - 1 \<Longrightarrow> I i s \<Longrightarrow> \<exists>s'. body i s = Inr s' \<and> I (i - 1) s'"
      using Suc.prems(3) by simp
  qed
  then show ?case using hi s1 by (simp add: for_down_step)
qed

lemma diagonal_product_returns:
  assumes "shaped n n u" and "NumberOfRows m = n"
  shows "\<exists>d. diagonal_product m u = Inr d"
proof -
  have fit: "n * n < 2 ^ 63" using assms(1) by (rule shaped_fit)
  have "\<exists>s'. for_loop 0 n
          (\<lambda>row (det, column). bind (Get u row column) (\<lambda>d. Inr (fmul det d, uint (column + 1))))
          (1, 0) = Inr s' \<and> snd s' = n"
  proof (rule for_loop_rule [where I = "\<lambda>i s. snd s = i"])
    fix i and s :: "f64 \<times> nat"
    assume i: "i < n" and s: "snd s = i"
    have "n < 2 ^ 63" using i fit by (rule square_bound)
    then have "uint (i + 1) = Suc i" using i by (simp add: uint_small)
    then show "\<exists>s'. (case s of (det, column) \<Rightarrow>
              bind (Get u i column) (\<lambda>d. Inr (fmul det d, uint (column + 1)))) = Inr s'
              \<and> snd s' = Suc i"
      using Get_shaped [OF assms(1) i i] s by (cases s) simp
  qed simp_all
  then show ?thesis using assms(2) by (auto simp: diagonal_product_def)
qed

lemma GetColumn_spec:
  assumes "shaped R C m" and "c < C"
  shows "\<exists>col. GetColumn m c = Inr col \<and> length col = R \<and> (\<forall>r<R. col ! r = entry m r c)"
proof -
  have dims: "NumberOfRows m = R" "NumberOfColumns m = C" using assms(1) by (simp_all add: shaped_def)
  have "R < 2 ^ 63" using assms(2) shaped_fit [OF assms(1)] by (rule rows_bound)
  then have mk: "make_slice R = Inr (replicate R (0::'a))" by (rule make_small)
  have "\<exists>col. for_loop 0 R
       (\<lambda>rows col. bind (index_read (M m) (uint (rows * C + c))) (\<lambda>v. index_write col rows v))
       (replicate R 0) = Inr col \<and> length col = R \<and> (\<forall>r<R. col ! r = entry m r c)"
  proof (rule for_loop_rule
      [where I = "\<lambda>i col. length col = R \<and> (\<forall>r<i. col ! r = entry m r c)"])
    fix i and s :: "'a list"
    assume i: "i < R" and s: "length s = R \<and> (\<forall>r<i. s ! r = entry m r c)"
    have "length (s[i := entry m i c]) = R \<and> (\<forall>r<Suc i. s[i := entry m i c] ! r = entry m r c)"
      using s i by (auto simp: nth_list_update less_Suc_eq)
    then show "\<exists>s'. bind (index_read (M m) (uint (i * C + c))) (\<lambda>v. index_write s i v) = Inr s'
            \<and> length s' = R \<and> (\<forall>r<Suc i. s' ! r = entry m r c)"
      using read_shaped [OF assms(1) i assms(2)] s i by (simp add: index_write_def)
  qed simp_all
  then show ?thesis by (simp add: GetColumn_def dims mk)
qed

section \<open>NewIdentity\<close>

lemma length_diag_upto [simp]: "length (diag_upto n j) = n * n"
  by (simp add: diag_upto_def)

lemma shaped_diag_matrix [simp]: "n * n < 2 ^ 63 \<Longrightarrow> shaped n n (diag_matrix n j)"
  by (simp add: shaped_def diag_matrix_def)

lemma diag_matrix_dims [simp]:
  "NumberOfRows (diag_matrix n j) = n" "NumberOfColumns (diag_matrix n j) = n"
  by (simp_all add: diag_matrix_def)

lemma entry_diag_matrix:
  "r < n \<Longrightarrow> c < n \<Longrightarrow> entry (diag_matrix n j) r c = (if r = c \<and> r < j then 1 else 0)"
  by (simp add: entry_def diag_matrix_def diag_upto_def index_bound)

lemma entry_identity: "r < n \<Longrightarrow> c < n \<Longrightarrow> entry (diag_matrix n n) r c = unit_entry r c"
  by (simp add: entry_diag_matrix unit_entry_def)

lemma diag_upto_Suc:
  assumes "j < n"
  shows "(diag_upto n j)[j * n + j := 1] = diag_upto n (Suc j)"
proof (rule nth_equalityI)
  show "length ((diag_upto n j)[j * n + j := 1]) = length (diag_upto n (Suc j))" by simp
  fix idx assume "idx < length ((diag_upto n j)[j * n + j := 1])"
  then have idx: "idx < n * n" by simp
  have eq: "idx = j * n + j \<longleftrightarrow> idx div n = j \<and> idx mod n = j"
  proof
    assume "idx = j * n + j" then show "idx div n = j \<and> idx mod n = j" using assms by simp
  next
    assume "idx div n = j \<and> idx mod n = j"
    then show "idx = j * n + j" using div_mult_mod_eq [of idx n] by simp
  qed
  show "(diag_upto n j)[j * n + j := 1] ! idx = diag_upto n (Suc j) ! idx"
    using idx eq by (auto simp: nth_list_update diag_upto_def less_Suc_eq)
qed

lemma diag_matrix_update:
  "j < n \<Longrightarrow> (diag_matrix n j)\<lparr>M := (M (diag_matrix n j))[j * n + j := 1]\<rparr> = diag_matrix n (Suc j)"
  by (simp add: diag_matrix_def diag_upto_Suc)

lemma diag_upto_0: "diag_upto n 0 = replicate (n * n) 0"
  by (rule nth_equalityI) (simp_all add: diag_upto_def)


lemma NewIdentity_eq:
  assumes fit: "n * n < 2 ^ 63"
  shows "NewIdentity n = Inr (diag_matrix n n)"
proof -
  have mk: "make_slice (uint (n * n)) = Inr (replicate (n * n) (0::f64))"
    using fit by (simp add: uint_small make_small)
  have init: "\<lparr>NumberOfRows = n, NumberOfColumns = n, M = replicate (n * n) 0, M_reserve = []\<rparr>
      = diag_matrix n 0"
    by (simp add: diag_matrix_def diag_upto_0)
  have "\<exists>s'. for_loop 0 n (\<lambda>j. for_loop 0 n (\<lambda>k i. if j = k then Set i j k 1 else Inr i))
          (diag_matrix n 0) = Inr s' \<and> s' = diag_matrix n n"
  proof (rule for_loop_rule [where I = "\<lambda>j s. s = diag_matrix n j"])
    fix j and s :: "f64 Matrix"
    assume j: "j < n" and s: "s = diag_matrix n j"
    have "\<exists>s'. for_loop 0 n (\<lambda>k i. if j = k then Set i j k 1 else Inr i) s = Inr s'
            \<and> s' = diag_matrix n (if j < n then Suc j else j)"
    proof (rule for_loop_rule
        [where I = "\<lambda>k t. t = diag_matrix n (if j < k then Suc j else j)"])
      fix k and t :: "f64 Matrix"
      assume k: "k < n" and t: "t = diag_matrix n (if j < k then Suc j else j)"
      show "\<exists>s'. (if j = k then Set t j k 1 else Inr t) = Inr s' \<and>
             s' = diag_matrix n (if j < Suc k then Suc j else j)"
      proof (cases "j = k")
        case True
        then show ?thesis
          using t Set_shaped(1) [OF shaped_diag_matrix [OF fit] j j, of j 1]
            diag_matrix_update [OF j]
          by simp
      next
        case False
        then show ?thesis using t by (auto simp: less_Suc_eq)
      qed
    qed (use j s in simp_all)
    then show "\<exists>s'. for_loop 0 n (\<lambda>k i. if j = k then Set i j k 1 else Inr i) s = Inr s'
            \<and> s' = diag_matrix n (Suc j)"
      using j by simp
  qed simp_all
  then show ?thesis by (simp add: NewIdentity_def mk init)
qed


section \<open>The substitution loops of Inverse\<close>

lemma f64_zero_one [simp]:
  "fmul 0 0 = (0::f64)" "fadd 0 0 = (0::f64)" "fsub 1 0 = (1::f64)" "fsub 0 0 = (0::f64)"
  "fdiv 0 1 = (0::f64)" "fmul 1 1 = (1::f64)"
  by (simp_all add: f64_eval)

lemma fsub_unit_zero [simp]: "fsub (unit_entry i k) 0 = unit_entry i k"
  by (simp add: unit_entry_def)

lemma forward_entry_cong:
  assumes "\<And>j. j < i \<Longrightarrow> entry y' j k = entry y j k"
  shows "forward_entry l y' i k = forward_entry l y i k"
proof -
  have "dot [0..<i] (entry l i) (\<lambda>j. entry y' j k) = dot [0..<i] (entry l i) (\<lambda>j. entry y j k)"
    using assms by (intro dot_cong) simp_all
  then show ?thesis by (simp add: forward_entry_def)
qed

lemma backward_entry_cong:
  assumes "NumberOfRows x' = NumberOfRows x"
    and "\<And>p. r < p \<Longrightarrow> p < NumberOfRows x \<Longrightarrow> entry x' p c = entry x p c"
  shows "backward_entry u y x' r c = backward_entry u y x r c"
proof -
  have "dot [Suc r..<NumberOfRows x] (entry u r) (\<lambda>p. entry x' p c)
      = dot [Suc r..<NumberOfRows x] (entry u r) (\<lambda>p. entry x p c)"
    using assms(2) by (intro dot_cong) simp_all
  then show ?thesis by (simp add: backward_entry_def assms(1))
qed

lemma sum_loop:
  assumes "lo \<le> hi"
    and "\<And>j. lo \<le> j \<Longrightarrow> j < hi \<Longrightarrow> ra j = Inr (x j) \<and> rb j = Inr (y j)"
  shows "for_loop lo hi (\<lambda>j sum. bind (ra j) (\<lambda>a. bind (rb j) (\<lambda>b. Inr (fadd sum (fmul a b))))) 0
           = Inr (dot [lo..<hi] x y)"
proof -
  have "\<exists>s'. for_loop lo hi
          (\<lambda>j sum. bind (ra j) (\<lambda>a. bind (rb j) (\<lambda>b. Inr (fadd sum (fmul a b))))) 0 = Inr s'
          \<and> s' = dot [lo..<hi] x y"
  proof (rule for_loop_rule [where I = "\<lambda>j s. s = dot [lo..<j] x y"])
    fix j and s :: f64
    assume j: "lo \<le> j" "j < hi" and s: "s = dot [lo..<j] x y"
    show "\<exists>s'. bind (ra j) (\<lambda>a. bind (rb j) (\<lambda>b. Inr (fadd s (fmul a b)))) = Inr s'
            \<and> s' = dot [lo..<Suc j] x y"
      using assms(2) [OF j] j(1) s by (simp add: dot_snoc)
  qed (use assms(1) in simp_all)
  then show ?thesis by simp
qed

lemma forward_column_spec:
  assumes l: "shaped n n l" and k: "k < n" and y: "shaped n n y"
  shows "\<exists>y'. forward_column l (diag_matrix n n) k (y, 0) = Inr (y', 0) \<and> shaped n n y'
           \<and> (\<forall>r<n. \<forall>c<n. c \<noteq> k \<longrightarrow> entry y' r c = entry y r c)
           \<and> (\<forall>r<n. entry y' r k = forward_entry l y' r k)"
proof -
  let ?idm = "diag_matrix n n"
  have n0: "0 < n" using k by simp
  have fit: "n * n < 2 ^ 63" using l by (rule shaped_fit)
  have idm: "shaped n n ?idm" using fit by simp
  obtain col where col: "GetColumn ?idm k = Inr col" "length col = n"
    "\<forall>r<n. col ! r = entry ?idm r k"
    using GetColumn_spec [OF idm k] by blast
  have c0: "index_read col 0 = Inr (unit_entry 0 k)"
    using col n0 k by (simp add: index_read_def entry_identity)
  have "n \<le> n * n" using n0 by (cases n) simp_all
  then have "k < n * n" using k by linarith
  then have kk: "k < length (M y)" using y by (simp add: shaped_def)
  let ?v0 = "fdiv (unit_entry 0 k) (entry l 0 0)"
  let ?y1 = "y\<lparr>M := (M y)[k := ?v0]\<rparr>"
  have y1: "shaped n n ?y1" using y by (simp add: shaped_def)
  have e1: "\<And>r c. c < n \<Longrightarrow> entry ?y1 r c = (if r = 0 \<and> c = k then ?v0 else entry y r c)"
    using Set_shaped(3) [OF y n0 k, of _ ?v0] by simp
  have bound: "nat (to_int (NumberOfRows l)) = n" using shaped_to_int(1) [OF l k] by simp
  let ?I = "\<lambda>i (t :: f64 Matrix \<times> f64). shaped n n (fst t) \<and> snd t = 0
           \<and> (\<forall>r<n. \<forall>c<n. c \<noteq> k \<longrightarrow> entry (fst t) r c = entry y r c)
           \<and> (\<forall>r<i. entry (fst t) r k = forward_entry l (fst t) r k)"
  have "\<exists>s'. for_loop 1 n
       (\<lambda>i (y, sum).
          bind (for_loop 0 i
                  (\<lambda>j sum. bind (Get l i j) (\<lambda>a.
                           bind (index_read (M y) (uint (j * NumberOfColumns y + k))) (\<lambda>b.
                           Inr (fadd sum (fmul a b)))))
                  sum) (\<lambda>sum.
          bind (Get ?idm i k) (\<lambda>e.
          bind (Get l i i) (\<lambda>d.
          bind (Set y i k (fdiv (fsub e sum) d)) (\<lambda>y'. Inr (y', 0))))))
       (?y1, 0) = Inr s' \<and> ?I n s'"
  proof (rule for_loop_rule [where I = ?I])
    have "entry ?y1 0 k = forward_entry l ?y1 0 k"
      using e1 [OF k, of 0] by (simp add: forward_entry_def)
    then show "?I 1 (?y1, 0)" using y1 e1 by simp
    show "1 \<le> n" using n0 by simp
    fix i and t :: "f64 Matrix \<times> f64"
    assume i: "1 \<le> i" "i < n" and t: "?I i t"
    obtain w acc where w: "t = (w, acc)" by (cases t)
    with t have ws: "shaped n n w" and acc: "acc = 0"
      and frame: "\<And>r c. r < n \<Longrightarrow> c < n \<Longrightarrow> c \<noteq> k \<Longrightarrow> entry w r c = entry y r c"
      and filled_in: "\<And>r. r < i \<Longrightarrow> entry w r k = forward_entry l w r k"
      by simp_all
    have wc: "NumberOfColumns w = n" using ws by (simp add: shaped_def)
    have sum: "for_loop 0 i
                  (\<lambda>j sum. bind (Get l i j) (\<lambda>a.
                           bind (index_read (M w) (uint (j * n + k))) (\<lambda>b.
                           Inr (fadd sum (fmul a b))))) 0
               = Inr (dot [0..<i] (entry l i) (\<lambda>j. entry w j k))"
    proof (rule sum_loop)
      fix j assume "j < i"
      then have j: "j < n" using i by simp
      show "Get l i j = Inr (entry l i j) \<and> index_read (M w) (uint (j * n + k)) = Inr (entry w j k)"
        using Get_shaped [OF l i(2) j] read_shaped [OF ws j k] by simp
    qed simp
    let ?v = "forward_entry l w i k"
    let ?w' = "w\<lparr>M := (M w)[i * n + k := ?v]\<rparr>"
    have e: "\<And>r c. c < n \<Longrightarrow> entry ?w' r c = (if r = i \<and> c = k then ?v else entry w r c)"
      by (rule Set_shaped(3) [OF ws i(2) k])
    have cong: "forward_entry l ?w' r k = forward_entry l w r k" if "r \<le> i" for r
      using that e [OF k] by (intro forward_entry_cong) simp
    have "\<forall>r<Suc i. entry ?w' r k = forward_entry l ?w' r k"
    proof (intro allI impI)
      fix r assume r: "r < Suc i"
      show "entry ?w' r k = forward_entry l ?w' r k"
      proof (cases "r = i")
        case True
        then show ?thesis using e [OF k, of i] cong [of i] by simp
      next
        case False
        then have ri: "r < i" using r by simp
        then show ?thesis using e [OF k, of r] cong [of r] filled_in [OF ri] by simp
      qed
    qed
    moreover have "\<forall>r<n. \<forall>c<n. c \<noteq> k \<longrightarrow> entry ?w' r c = entry y r c"
      using e frame by simp
    moreover have "shaped n n ?w'" by (rule Set_shaped(2) [OF ws i(2) k])
    ultimately have inv: "?I (Suc i) (?w', 0)" by simp
    have "(case t of (y, sm) \<Rightarrow>
          bind (for_loop 0 i
                  (\<lambda>j sum. bind (Get l i j) (\<lambda>a.
                           bind (index_read (M y) (uint (j * NumberOfColumns y + k))) (\<lambda>b.
                           Inr (fadd sum (fmul a b)))))
                  sm) (\<lambda>sum.
          bind (Get ?idm i k) (\<lambda>e.
          bind (Get l i i) (\<lambda>d.
          bind (Set y i k (fdiv (fsub e sum) d)) (\<lambda>y'. Inr (y', 0)))))) = Inr (?w', 0)"
      using w acc sum Get_shaped [OF idm i(2) k] Get_shaped [OF l i(2) i(2)]
        Set_shaped(1) [OF ws i(2) k] i(2) k
      by (simp add: wc forward_entry_def entry_identity)
    then show "\<exists>s'. (case t of (y, sm) \<Rightarrow>
          bind (for_loop 0 i
                  (\<lambda>j sum. bind (Get l i j) (\<lambda>a.
                           bind (index_read (M y) (uint (j * NumberOfColumns y + k))) (\<lambda>b.
                           Inr (fadd sum (fmul a b)))))
                  sm) (\<lambda>sum.
          bind (Get ?idm i k) (\<lambda>e.
          bind (Get l i i) (\<lambda>d.
          bind (Set y i k (fdiv (fsub e sum) d)) (\<lambda>y'. Inr (y', 0)))))) = Inr s' \<and> ?I (Suc i) s'"
      using inv by blast
  qed
  then obtain s' where s': "for_loop 1 n
       (\<lambda>i (y, sum).
          bind (for_loop 0 i
                  (\<lambda>j sum. bind (Get l i j) (\<lambda>a.
                           bind (index_read (M y) (uint (j * NumberOfColumns y + k))) (\<lambda>b.
                           Inr (fadd sum (fmul a b)))))
                  sum) (\<lambda>sum.
          bind (Get ?idm i k) (\<lambda>e.
          bind (Get l i i) (\<lambda>d.
          bind (Set y i k (fdiv (fsub e sum) d)) (\<lambda>y'. Inr (y', 0))))))
       (?y1, 0) = Inr s'" "?I n s'" by blast
  obtain y' acc' where ya: "s' = (y', acc')" by (cases s')
  have "forward_column l ?idm k (y, 0) = Inr (y', 0)"
    using s' ya col(1) c0 Get_shaped [OF l n0 n0] kk
    by (simp add: forward_column_def bound index_write_def)
  then show ?thesis using s'(2) ya by auto
qed

lemma forward_pass_spec:
  assumes l: "shaped n n l"
  shows "\<exists>y. for_loop 0 n (forward_column l (diag_matrix n n)) (zeros n n, 0) = Inr (y, 0)
           \<and> shaped n n y \<and> (\<forall>r<n. \<forall>c<n. entry y r c = forward_entry l y r c)"
proof -
  have fit: "n * n < 2 ^ 63" using l by (rule shaped_fit)
  let ?I = "\<lambda>k (t :: f64 Matrix \<times> f64). shaped n n (fst t) \<and> snd t = 0
           \<and> (\<forall>c<k. \<forall>r<n. entry (fst t) r c = forward_entry l (fst t) r c)"
  have "\<exists>s'. for_loop 0 n (forward_column l (diag_matrix n n)) (zeros n n, 0) = Inr s' \<and> ?I n s'"
  proof (rule for_loop_rule [where I = ?I])
    show "?I 0 (zeros n n, 0)" using fit by simp
    show "0 \<le> n" by simp
    fix k and t :: "f64 Matrix \<times> f64"
    assume k: "k < n" and t: "?I k t"
    obtain y acc where ya: "t = (y, acc)" by (cases t)
    with t have y: "shaped n n y" and acc: "acc = 0"
      and filled_in: "\<And>r c. c < k \<Longrightarrow> r < n \<Longrightarrow> entry y r c = forward_entry l y r c"
      by simp_all
    obtain y' where y': "forward_column l (diag_matrix n n) k (y, 0) = Inr (y', 0)" "shaped n n y'"
      and frame: "\<And>r c. r < n \<Longrightarrow> c < n \<Longrightarrow> c \<noteq> k \<Longrightarrow> entry y' r c = entry y r c"
      and new: "\<And>r. r < n \<Longrightarrow> entry y' r k = forward_entry l y' r k"
      using forward_column_spec [OF l k y] by blast
    have "\<forall>c<Suc k. \<forall>r<n. entry y' r c = forward_entry l y' r c"
    proof (intro allI impI)
      fix c r assume c: "c < Suc k" and r: "r < n"
      show "entry y' r c = forward_entry l y' r c"
      proof (cases "c = k")
        case True
        then show ?thesis using new [OF r] by simp
      next
        case False
        then have ck: "c < k" using c by simp
        then have cn: "c < n" using k by simp
        have "forward_entry l y' r c = forward_entry l y r c"
          using r cn False by (intro forward_entry_cong frame) simp_all
        then show ?thesis using frame [OF r cn False] filled_in [OF ck r] by simp
      qed
    qed
    then show "\<exists>s'. forward_column l (diag_matrix n n) k t = Inr s' \<and> ?I (Suc k) s'"
      using y' ya acc by simp
  qed
  then show ?thesis by (metis prod.collapse)
qed

lemma backward_column_spec:
  assumes u: "shaped n n u" and y: "shaped n n y" and k: "k < n" and x: "shaped n n x"
  shows "\<exists>x'. backward_column u y k (x, 0) = Inr (x', 0) \<and> shaped n n x'
           \<and> (\<forall>r<n. \<forall>c<n. c \<noteq> n - 1 - k \<longrightarrow> entry x' r c = entry x r c)
           \<and> (\<forall>r<n. entry x' r (n - 1 - k) = backward_entry u y x' r (n - 1 - k))"
proof -
  have xd: "NumberOfRows x = n" "NumberOfColumns x = n" using x by (simp_all add: shaped_def)
  have yd: "NumberOfRows y = n" using y by (simp add: shaped_def)
  have n0: "0 < n" using k by simp
  have fit: "n * n < 2 ^ 63" using x by (rule shaped_fit)
  have n63: "n < 2 ^ 63" using k fit by (rule square_bound)
  then have n64: "n < 2 ^ 64" by simp
  let ?c = "n - 1 - k"
  have c: "?c < n" and n1: "n - 1 < n" using n0 by simp_all
  have us1: "usub n 1 = n - 1" using n0 n64 by (simp add: usub_small)
  have us: "usub (n - 1) k = ?c" using k n64 by (simp add: usub_small)
  have ti: "to_int n = int n" using n63 by (rule to_int_small)
  obtain col where col: "GetColumn y ?c = Inr col" "length col = n"
    "\<forall>r<n. col ! r = entry y r ?c"
    using GetColumn_spec [OF y c] by blast
  have cl: "index_read_int col (int n - 1) = Inr (entry y (n - 1) ?c)"
    using col n0 by (simp add: index_read_int_def index_read_def nat_diff_distrib)
  let ?v1 = "fdiv (entry y (n - 1) ?c) (entry u (n - 1) (n - 1))"
  let ?x1 = "x\<lparr>M := (M x)[(n - 1) * n + ?c := ?v1]\<rparr>"
  have x1: "shaped n n ?x1" by (rule Set_shaped(2) [OF x n1 c])
  have e1: "\<And>r c'. c' < n \<Longrightarrow> entry ?x1 r c' = (if r = n - 1 \<and> c' = ?c then ?v1 else entry x r c')"
    by (rule Set_shaped(3) [OF x n1 c])
  let ?I = "\<lambda>p (t :: f64 Matrix \<times> f64). shaped n n (fst t) \<and> snd t = 0
           \<and> (\<forall>r<n. \<forall>c'<n. c' \<noteq> ?c \<longrightarrow> entry (fst t) r c' = entry x r c')
           \<and> (\<forall>r<n. p < int r \<longrightarrow> entry (fst t) r ?c = backward_entry u y (fst t) r ?c)"
  have "\<exists>s'. for_down (int n - 2)
        (\<lambda>p (x, sum2).
           bind (for_loop (nat (p + 1)) (nat (to_int (NumberOfRows x)))
                   (\<lambda>q sum2. bind (Get u (nat p) q) (\<lambda>a.
                             bind (Get x q ?c) (\<lambda>b.
                             Inr (fadd sum2 (fmul a b)))))
                   sum2) (\<lambda>sum2.
           bind (Get y (nat p) ?c) (\<lambda>e.
           bind (Get u (nat p) (nat p)) (\<lambda>d.
           bind (Set x (nat p) ?c (fdiv (fsub e sum2) d)) (\<lambda>x'. Inr (x', 0))))))
        (?x1, 0) = Inr s' \<and> ?I (- 1) s'"
  proof (rule for_down_rule [where I = ?I])
    have "entry ?x1 r ?c = backward_entry u y ?x1 r ?c" if "r < n" "int n - 2 < int r" for r
    proof -
      have "r = n - 1" using that by linarith
      then show ?thesis using e1 [OF c, of "n - 1"] n0 xd by (simp add: backward_entry_def)
    qed
    then show "?I (int n - 2) (?x1, 0)" using x1 e1 by simp
    show "- 1 \<le> int n - 2" using n0 by simp
    fix p and t :: "f64 Matrix \<times> f64"
    assume p: "0 \<le> p" "p \<le> int n - 2" and t: "?I p t"
    let ?r = "nat p"
    have rn: "?r < n" and rn1: "Suc ?r < n" using p by linarith+
    have np: "nat (p + 1) = Suc ?r" using p by simp
    obtain w acc where w: "t = (w, acc)" by (cases t)
    with t have ws: "shaped n n w" and acc: "acc = 0"
      and frame: "\<And>r c'. r < n \<Longrightarrow> c' < n \<Longrightarrow> c' \<noteq> ?c \<Longrightarrow> entry w r c' = entry x r c'"
      and filled_in: "\<And>r. r < n \<Longrightarrow> p < int r \<Longrightarrow> entry w r ?c = backward_entry u y w r ?c"
      by simp_all
    have wd: "NumberOfRows w = n" using ws by (simp add: shaped_def)
    have sum: "for_loop (Suc ?r) n
                   (\<lambda>q sum2. bind (Get u ?r q) (\<lambda>a.
                             bind (Get w q ?c) (\<lambda>b.
                             Inr (fadd sum2 (fmul a b))))) 0
               = Inr (dot [Suc ?r..<n] (entry u ?r) (\<lambda>q. entry w q ?c))"
    proof (rule sum_loop)
      show "Suc ?r \<le> n" using rn1 by simp
      fix q assume q: "q < n"
      show "Get u ?r q = Inr (entry u ?r q) \<and> Get w q ?c = Inr (entry w q ?c)"
        using Get_shaped [OF u rn q] Get_shaped [OF ws q c] by simp
    qed
    let ?v = "backward_entry u y w ?r ?c"
    let ?w' = "w\<lparr>M := (M w)[?r * n + ?c := ?v]\<rparr>"
    have e: "\<And>r c'. c' < n \<Longrightarrow> entry ?w' r c' = (if r = ?r \<and> c' = ?c then ?v else entry w r c')"
      by (rule Set_shaped(3) [OF ws rn c])
    have cong: "backward_entry u y ?w' r ?c = backward_entry u y w r ?c" if "?r \<le> r" for r
      using that e [OF c] by (intro backward_entry_cong) simp_all
    have "\<forall>r<n. p - 1 < int r \<longrightarrow> entry ?w' r ?c = backward_entry u y ?w' r ?c"
    proof (intro allI impI)
      fix r assume r: "r < n" "p - 1 < int r"
      then have le: "?r \<le> r" by linarith
      show "entry ?w' r ?c = backward_entry u y ?w' r ?c"
      proof (cases "r = ?r")
        case True
        then show ?thesis using e [OF c, of ?r] cong [of ?r] by simp
      next
        case False
        then have "p < int r" using le by linarith
        then show ?thesis using e [OF c, of r] cong [OF le] filled_in [OF r(1)] False by simp
      qed
    qed
    moreover have "\<forall>r<n. \<forall>c'<n. c' \<noteq> ?c \<longrightarrow> entry ?w' r c' = entry x r c'"
      using e frame by simp
    moreover have "shaped n n ?w'" by (rule Set_shaped(2) [OF ws rn c])
    ultimately have inv: "?I (p - 1) (?w', 0)" by simp
    have "(case t of (x, sum2) \<Rightarrow>
           bind (for_loop (nat (p + 1)) (nat (to_int (NumberOfRows x)))
                   (\<lambda>q sum2. bind (Get u (nat p) q) (\<lambda>a.
                             bind (Get x q ?c) (\<lambda>b.
                             Inr (fadd sum2 (fmul a b)))))
                   sum2) (\<lambda>sum2.
           bind (Get y (nat p) ?c) (\<lambda>e.
           bind (Get u (nat p) (nat p)) (\<lambda>d.
           bind (Set x (nat p) ?c (fdiv (fsub e sum2) d)) (\<lambda>x'. Inr (x', 0)))))) = Inr (?w', 0)"
      using w acc sum Get_shaped [OF y rn c] Get_shaped [OF u rn rn]
        Set_shaped(1) [OF ws rn c] rn1
      by (simp add: wd ti np backward_entry_def)
    then show "\<exists>s'. (case t of (x, sum2) \<Rightarrow>
           bind (for_loop (nat (p + 1)) (nat (to_int (NumberOfRows x)))
                   (\<lambda>q sum2. bind (Get u (nat p) q) (\<lambda>a.
                             bind (Get x q ?c) (\<lambda>b.
                             Inr (fadd sum2 (fmul a b)))))
                   sum2) (\<lambda>sum2.
           bind (Get y (nat p) ?c) (\<lambda>e.
           bind (Get u (nat p) (nat p)) (\<lambda>d.
           bind (Set x (nat p) ?c (fdiv (fsub e sum2) d)) (\<lambda>x'. Inr (x', 0)))))) = Inr s'
           \<and> ?I (p - 1) s'"
      using inv by blast
  qed
  then obtain s' where s': "for_down (int n - 2)
        (\<lambda>p (x, sum2).
           bind (for_loop (nat (p + 1)) (nat (to_int (NumberOfRows x)))
                   (\<lambda>q sum2. bind (Get u (nat p) q) (\<lambda>a.
                             bind (Get x q ?c) (\<lambda>b.
                             Inr (fadd sum2 (fmul a b)))))
                   sum2) (\<lambda>sum2.
           bind (Get y (nat p) ?c) (\<lambda>e.
           bind (Get u (nat p) (nat p)) (\<lambda>d.
           bind (Set x (nat p) ?c (fdiv (fsub e sum2) d)) (\<lambda>x'. Inr (x', 0))))))
        (?x1, 0) = Inr s'" "?I (- 1) s'" by blast
  obtain x' acc' where xa: "s' = (x', acc')" by (cases s')
  have x1c: "NumberOfColumns ?x1 = n" using x1 by (simp add: shaped_def)
  have "backward_column u y k (x, 0) = Inr (x', 0)"
    unfolding backward_column_def Let_def prod.case xd yd us1 us ti
    using s' xa col(1) cl Get_shaped [OF u n1 n1] Set_shaped(1) [OF x n1 c]
    by (simp add: xd ti)
  then show ?thesis using s'(2) xa by auto
qed

lemma backward_pass_spec:
  assumes u: "shaped n n u" and y: "shaped n n y"
  shows "\<exists>x. for_loop 0 n (backward_column u y) (zeros n n, 0) = Inr (x, 0)
           \<and> shaped n n x \<and> (\<forall>r<n. \<forall>c<n. entry x r c = backward_entry u y x r c)"
proof -
  have fit: "n * n < 2 ^ 63" using u by (rule shaped_fit)
  let ?I = "\<lambda>k (t :: f64 Matrix \<times> f64). shaped n n (fst t) \<and> snd t = 0
           \<and> (\<forall>c<n. n - k \<le> c \<longrightarrow> (\<forall>r<n. entry (fst t) r c = backward_entry u y (fst t) r c))"
  have "\<exists>s'. for_loop 0 n (backward_column u y) (zeros n n, 0) = Inr s' \<and> ?I n s'"
  proof (rule for_loop_rule [where I = ?I])
    show "?I 0 (zeros n n, 0)" using fit by simp
    show "0 \<le> n" by simp
    fix k and t :: "f64 Matrix \<times> f64"
    assume k: "k < n" and t: "?I k t"
    obtain x acc where xa: "t = (x, acc)" by (cases t)
    with t have x: "shaped n n x" and acc: "acc = 0"
      and filled_in: "\<And>r c. c < n \<Longrightarrow> n - k \<le> c \<Longrightarrow> r < n \<Longrightarrow> entry x r c = backward_entry u y x r c"
      by simp_all
    let ?c = "n - 1 - k"
    obtain x' where x': "backward_column u y k (x, 0) = Inr (x', 0)" "shaped n n x'"
      and frame: "\<And>r c. r < n \<Longrightarrow> c < n \<Longrightarrow> c \<noteq> ?c \<Longrightarrow> entry x' r c = entry x r c"
      and new: "\<And>r. r < n \<Longrightarrow> entry x' r ?c = backward_entry u y x' r ?c"
      using backward_column_spec [OF u y k x] by blast
    have rows: "NumberOfRows x' = NumberOfRows x" "NumberOfRows x = n"
      using x x'(2) by (simp_all add: shaped_def)
    have "\<forall>c<n. n - Suc k \<le> c \<longrightarrow> (\<forall>r<n. entry x' r c = backward_entry u y x' r c)"
    proof (intro allI impI)
      fix c r assume c: "c < n" "n - Suc k \<le> c" and r: "r < n"
      show "entry x' r c = backward_entry u y x' r c"
      proof (cases "c = ?c")
        case True
        then show ?thesis using new [OF r] by simp
      next
        case False
        then have ck: "n - k \<le> c" using c k by linarith
        have "backward_entry u y x' r c = backward_entry u y x r c"
          using c(1) False rows by (intro backward_entry_cong frame) simp_all
        then show ?thesis using frame [OF r c(1) False] filled_in [OF c(1) ck r] by simp
      qed
    qed
    then show "\<exists>s'. backward_column u y k t = Inr s' \<and> ?I (Suc k) s'"
      using x' xa acc by simp
  qed
  then show ?thesis by (metis diff_self_eq_0 le0 prod.collapse)
qed


section \<open>Multiply computes the rounded sums of products\<close>

lemma Multiply_spec:
  assumes a: "shaped R C a" and b: "shaped C K b" and fit: "R * K < 2 ^ 63"
  shows "\<exists>p. Multiply a b = Inr p \<and> shaped R K p
           \<and> (\<forall>i<R. \<forall>j<K. entry p i j = dot [0..<C] (entry a i) (\<lambda>k. entry b k j))"
proof -
  have dims: "NumberOfRows a = R" "NumberOfColumns a = C" "NumberOfRows b = C" "NumberOfColumns b = K"
    using a b by (simp_all add: shaped_def)
  let ?D = "\<lambda>r c. dot [0..<C] (entry a r) (\<lambda>k. entry b k c)"
  let ?mid = "\<lambda>i j s. shaped R K s
      \<and> (\<forall>r<R. \<forall>c<K. entry s r c = (if r < i \<or> (r = i \<and> c < j) then ?D r c else 0))"
  let ?out = "\<lambda>i s. ?mid i 0 s"
  have "\<exists>p. for_loop 0 R
        (\<lambda>i. for_loop 0 K
          (\<lambda>j. for_loop 0 C
            (\<lambda>k result.
               bind (index_read (M result) (uint (i * NumberOfColumns result + j))) (\<lambda>r.
               bind (index_read (M a) (uint (i * C + k))) (\<lambda>x.
               bind (index_read (M b) (uint (k * K + j))) (\<lambda>y.
               Set result i j (fadd r (fmul x y))))))))
        (zeros R K) = Inr p \<and> ?out R p"
  proof (rule for_loop_rule [where I = ?out])
    show "?out 0 (zeros R K)" using fit by (simp add: entry_def index_bound)
    show "0 \<le> R" by simp
    fix i and s :: "f64 Matrix"
    assume i: "i < R" and s: "?out i s"
    have "\<exists>s'. for_loop 0 K
          (\<lambda>j. for_loop 0 C
            (\<lambda>k result.
               bind (index_read (M result) (uint (i * NumberOfColumns result + j))) (\<lambda>r.
               bind (index_read (M a) (uint (i * C + k))) (\<lambda>x.
               bind (index_read (M b) (uint (k * K + j))) (\<lambda>y.
               Set result i j (fadd r (fmul x y))))))) s = Inr s' \<and> ?mid i K s'"
    proof (rule for_loop_rule [where I = "?mid i"])
      show "?mid i 0 s" by (rule s)
      show "0 \<le> K" by simp
      fix j and t :: "f64 Matrix"
      assume j: "j < K" and t: "?mid i j t"
      let ?in = "\<lambda>k w. shaped R K w
          \<and> (\<forall>r<R. \<forall>c<K. entry w r c =
               (if r = i \<and> c = j then dot [0..<k] (entry a i) (\<lambda>k. entry b k j)
                else if r < i \<or> (r = i \<and> c < j) then ?D r c else 0))"
      have "\<exists>s'. for_loop 0 C
            (\<lambda>k result.
               bind (index_read (M result) (uint (i * NumberOfColumns result + j))) (\<lambda>r.
               bind (index_read (M a) (uint (i * C + k))) (\<lambda>x.
               bind (index_read (M b) (uint (k * K + j))) (\<lambda>y.
               Set result i j (fadd r (fmul x y)))))) t = Inr s' \<and> ?in C s'"
      proof (rule for_loop_rule [where I = ?in])
        show "?in 0 t"
        proof (intro conjI allI impI)
          show "shaped R K t" using t by simp
          fix r c assume rc: "r < R" "c < K"
          have "entry t r c = (if r < i \<or> (r = i \<and> c < j) then ?D r c else 0)"
            using t rc by simp
          then show "entry t r c =
               (if r = i \<and> c = j then dot [0..<0] (entry a i) (\<lambda>k. entry b k j)
                else if r < i \<or> (r = i \<and> c < j) then ?D r c else 0)"
            by (cases "r = i \<and> c = j") simp_all
        qed
        show "0 \<le> C" by simp
        fix k and w :: "f64 Matrix"
        assume k: "k < C" and w: "?in k w"
        then have ws: "shaped R K w" by simp
        then have wc: "NumberOfColumns w = K" by (simp add: shaped_def)
        have cur: "entry w i j = dot [0..<k] (entry a i) (\<lambda>k. entry b k j)"
          using w i j by simp
        let ?v = "fadd (entry w i j) (fmul (entry a i k) (entry b k j))"
        let ?w' = "w\<lparr>M := (M w)[i * K + j := ?v]\<rparr>"
        have e: "\<And>r c. c < K \<Longrightarrow> entry ?w' r c = (if r = i \<and> c = j then ?v else entry w r c)"
          by (rule Set_shaped(3) [OF ws i j])
        have v: "?v = dot [0..<Suc k] (entry a i) (\<lambda>k. entry b k j)"
          using cur by (simp add: dot_snoc)
        have "?in (Suc k) ?w'"
        proof (intro conjI allI impI)
          show "shaped R K ?w'" by (rule Set_shaped(2) [OF ws i j])
          fix r c assume rc: "r < R" "c < K"
          show "entry ?w' r c =
               (if r = i \<and> c = j then dot [0..<Suc k] (entry a i) (\<lambda>k. entry b k j)
                else if r < i \<or> (r = i \<and> c < j) then ?D r c else 0)"
          proof (cases "r = i \<and> c = j")
            case True
            then show ?thesis using e [OF rc(2), of r] v by simp
          next
            case False
            have "entry ?w' r c = entry w r c" using e [OF rc(2), of r] False by (simp only: if_False)
            also have "\<dots> = (if r < i \<or> (r = i \<and> c < j) then ?D r c else 0)"
              using w rc False by auto
            finally show ?thesis using False by (simp only: if_False)
          qed
        qed
        moreover have "bind (index_read (M w) (uint (i * NumberOfColumns w + j))) (\<lambda>r.
               bind (index_read (M a) (uint (i * C + k))) (\<lambda>x.
               bind (index_read (M b) (uint (k * K + j))) (\<lambda>y.
               Set w i j (fadd r (fmul x y))))) = Inr ?w'"
          using read_shaped [OF ws i j] read_shaped [OF a i k] read_shaped [OF b k j]
            Set_shaped(1) [OF ws i j] by (simp add: wc)
        ultimately show "\<exists>s'. bind (index_read (M w) (uint (i * NumberOfColumns w + j))) (\<lambda>r.
               bind (index_read (M a) (uint (i * C + k))) (\<lambda>x.
               bind (index_read (M b) (uint (k * K + j))) (\<lambda>y.
               Set w i j (fadd r (fmul x y))))) = Inr s' \<and> ?in (Suc k) s'"
          by blast
      qed
      then obtain s' where s': "for_loop 0 C
            (\<lambda>k result.
               bind (index_read (M result) (uint (i * NumberOfColumns result + j))) (\<lambda>r.
               bind (index_read (M a) (uint (i * C + k))) (\<lambda>x.
               bind (index_read (M b) (uint (k * K + j))) (\<lambda>y.
               Set result i j (fadd r (fmul x y)))))) t = Inr s'" "?in C s'" by blast
      have "?mid i (Suc j) s'"
      proof (intro conjI allI impI)
        show "shaped R K s'" using s'(2) by simp
        fix r c assume rc: "r < R" "c < K"
        have "entry s' r c = (if r = i \<and> c = j then ?D i j
                else if r < i \<or> (r = i \<and> c < j) then ?D r c else 0)"
          using s'(2) rc by simp
        moreover have "(r < i \<or> (r = i \<and> c < Suc j)) \<longleftrightarrow> (r = i \<and> c = j) \<or> (r < i \<or> (r = i \<and> c < j))"
          by (auto simp: less_Suc_eq)
        ultimately show "entry s' r c = (if r < i \<or> (r = i \<and> c < Suc j) then ?D r c else 0)"
          by (cases "r = i \<and> c = j") simp_all
      qed
      then show "\<exists>s'. for_loop 0 C
            (\<lambda>k result.
               bind (index_read (M result) (uint (i * NumberOfColumns result + j))) (\<lambda>r.
               bind (index_read (M a) (uint (i * C + k))) (\<lambda>x.
               bind (index_read (M b) (uint (k * K + j))) (\<lambda>y.
               Set result i j (fadd r (fmul x y)))))) t = Inr s' \<and> ?mid i (Suc j) s'"
        using s'(1) by blast
    qed
    then obtain s' where s': "for_loop 0 K
          (\<lambda>j. for_loop 0 C
            (\<lambda>k result.
               bind (index_read (M result) (uint (i * NumberOfColumns result + j))) (\<lambda>r.
               bind (index_read (M a) (uint (i * C + k))) (\<lambda>x.
               bind (index_read (M b) (uint (k * K + j))) (\<lambda>y.
               Set result i j (fadd r (fmul x y))))))) s = Inr s'" "?mid i K s'" by blast
    have "?out (Suc i) s'"
    proof (intro conjI allI impI)
      show "shaped R K s'" using s'(2) by simp
      fix r c assume rc: "r < R" "c < K"
      have "entry s' r c = (if r < i \<or> (r = i \<and> c < K) then ?D r c else 0)"
        using s'(2) rc by simp
      moreover have "(r < i \<or> (r = i \<and> c < K)) \<longleftrightarrow> r < Suc i" using rc(2) by (auto simp: less_Suc_eq)
      moreover have "(r < Suc i \<or> (r = Suc i \<and> c < 0)) \<longleftrightarrow> r < Suc i" by simp
      ultimately show "entry s' r c = (if r < Suc i \<or> (r = Suc i \<and> c < 0) then ?D r c else 0)"
        by (simp only:)
    qed
    then show "\<exists>s'. for_loop 0 K
          (\<lambda>j. for_loop 0 C
            (\<lambda>k result.
               bind (index_read (M result) (uint (i * NumberOfColumns result + j))) (\<lambda>r.
               bind (index_read (M a) (uint (i * C + k))) (\<lambda>x.
               bind (index_read (M b) (uint (k * K + j))) (\<lambda>y.
               Set result i j (fadd r (fmul x y))))))) s = Inr s' \<and> ?out (Suc i) s'"
      using s'(1) by blast
  qed
  then obtain p where p: "for_loop 0 R
        (\<lambda>i. for_loop 0 K
          (\<lambda>j. for_loop 0 C
            (\<lambda>k result.
               bind (index_read (M result) (uint (i * NumberOfColumns result + j))) (\<lambda>r.
               bind (index_read (M a) (uint (i * C + k))) (\<lambda>x.
               bind (index_read (M b) (uint (k * K + j))) (\<lambda>y.
               Set result i j (fadd r (fmul x y))))))))
        (zeros R K) = Inr p" "?out R p" by blast
  have "Multiply a b = Inr p"
    using p(1) dims by (simp add: Multiply_def NewMatrix_eq [OF fit])
  moreover have "\<forall>i<R. \<forall>j<K. entry p i j = ?D i j" using p(2) by simp
  ultimately show ?thesis using p(2) by blast
qed

section \<open>Determinant and Inverse: the three outcomes\<close>

lemma determinantLU_returns:
  assumes "shaped n n m"
  shows "\<exists>det l u. LUDecomposition m = Inr (l, u) \<and> diagonal_product m u = Inr det
           \<and> determinantLU m = Inr (det, l, u) \<and> Determinant m = Inr det
           \<and> lower_unit n n l \<and> upper n u"
proof -
  obtain l u where lu: "LUDecomposition m = Inr (l, u)" "lower_unit n n l" "upper n u"
    using LUDecomposition_returns [OF assms] by auto
  have sq: "IsSquare m" "NumberOfRows m = n" using assms by (simp_all add: IsSquare_def shaped_def)
  from lu(3) have "shaped n n u" by (simp add: upper_def)
  then obtain det where det: "diagonal_product m u = Inr det"
    using diagonal_product_returns [OF _ sq(2)] by auto
  show ?thesis
    using lu det sq by (simp add: determinantLU_def Determinant_def)
qed

lemma Inverse_not_square: "\<not> IsSquare m \<Longrightarrow> Inverse m = Inl errorNonSquareMatrix"
  by (simp add: Inverse_def determinantLU_def)

lemma Inverse_singular:
  "determinantLU m = Inr (det, l, u) \<Longrightarrow> feq det 0 \<Longrightarrow> Inverse m = Inl errorNotInversible"
  by (simp add: Inverse_def)

lemma square_to_int:
  assumes "n * n < 2 ^ 63"
  shows "to_int n = int n"
proof (cases "n = 0")
  case True
  then show ?thesis by (simp add: to_int_def)
next
  case False
  then have "0 < n" by simp
  then have "n < 2 ^ 63" using assms by (rule square_bound)
  then show ?thesis by (rule to_int_small)
qed

lemma Inverse_spec:
  assumes m: "shaped n n m" and d: "determinantLU m = Inr (det, l, u)" and nz: "\<not> feq det 0"
  shows "\<exists>y x. Inverse m = Inr x \<and> shaped n n y \<and> shaped n n x
           \<and> (\<forall>r<n. \<forall>c<n. entry y r c = forward_entry l y r c)
           \<and> (\<forall>r<n. \<forall>c<n. entry x r c = backward_entry u y x r c)"
proof -
  have dims: "NumberOfRows m = n" "NumberOfColumns m = n" using m by (simp_all add: shaped_def)
  have fit: "n * n < 2 ^ 63" using m by (rule shaped_fit)
  have ti: "to_int n = int n" using fit by (rule square_to_int)
  from determinantLU_returns [OF m] d have l: "shaped n n l" and u: "shaped n n u"
    by (auto simp: lower_unit_def upper_def)
  obtain y where y: "for_loop 0 n (forward_column l (diag_matrix n n)) (zeros n n, 0) = Inr (y, 0)"
    "shaped n n y" "\<forall>r<n. \<forall>c<n. entry y r c = forward_entry l y r c"
    using forward_pass_spec [OF l] by blast
  obtain x where x: "for_loop 0 n (backward_column u y) (zeros n n, 0) = Inr (x, 0)"
    "shaped n n x" "\<forall>r<n. \<forall>c<n. entry x r c = backward_entry u y x r c"
    using backward_pass_spec [OF u y(2)] by blast
  have "Inverse m = Inr x"
    using d nz y(1) x(1)
    by (simp add: Inverse_def dims NewIdentity_eq [OF fit] NewMatrix_eq [OF fit] ti)
  then show ?thesis using y(2,3) x(2,3) by blast
qed

lemma Inverse_regular:
  assumes m: "shaped n n m" and d: "determinantLU m = Inr (det, l, u)" and nz: "\<not> feq det 0"
  shows "\<exists>x. Inverse m = Inr x \<and> shaped n n x"
  using Inverse_spec [OF assms] by blast

section \<open>Claims about LUDecomposition and Inverse\<close>

lemma shaped_square: "IsSquare m \<Longrightarrow> well_formed m \<Longrightarrow> shaped (NumberOfRows m) (NumberOfRows m) m"
  by (simp add: IsSquare_def well_formed_def shaped_def)

text \<open>
  C2, as stated: for a square matrix with nonzero pivots, \<open>L * U\<close> equals the matrix within
  \<^verbatim>\<open>1e-9\<close>, relative. It fails on \<open>[2^-60  1; 1  1]\<close>: the pivots are \<open>2^-60\<close> and \<open>-2^60\<close>
  (the exact \<open>1 - 2^60\<close> is rounded), and the product \<open>L * U\<close> has 0 at (1, 1) where the
  matrix has 1.
\<close>

theorem LUDecomposition_small_pivot_counterexample:
  "LUDecomposition small_pivot = Inr (small_pivot_L, small_pivot_U)
   \<and> Get small_pivot_U 0 0 = Inr (Fin False 1 (- 60)) \<and> \<not> feq (Fin False 1 (- 60)) 0
   \<and> Get small_pivot_U 1 1 = Inr (Fin True 1 60) \<and> \<not> feq (Fin True 1 60) 0
   \<and> bind (Multiply small_pivot_L small_pivot_U) (\<lambda>p. Get p 1 1) = Inr 0
   \<and> Get small_pivot 1 1 = Inr 1
   \<and> \<not> tolerance 0 1 tol_1e9"
  by (simp add: small_pivot_def small_pivot_L_def small_pivot_U_def lu_eval Multiply_def
      matrix_eval tolerance_def tol_1e9_def f64_eval)

text \<open>
  C2, amended: for every square matrix (of the data model: a buffer of \<open>rows * cols\<close>
  elements) \<^verbatim>\<open>LUDecomposition\<close> returns without error two matrices of the same size, \<open>L\<close>
  with ones on the diagonal and zeros above it and \<open>U\<close> with zeros below the diagonal,
  and they satisfy the Doolittle recursion of the specification with the operations of
  float64, each of them rounded: \<open>U[i][k]\<close> is \<open>A[i][k]\<close> less the sum of the \<open>L[i][j] * U[j][k]\<close>
  for \<open>k \<ge> i\<close>, and \<open>L[k][i]\<close> is \<open>A[k][i]\<close> less the sum of the \<open>L[k][j] * U[j][i]\<close>, divided by
  \<open>U[i][i]\<close>, for \<open>k > i\<close>, whether the pivots are zero or not. For every matrix that is
  not square it fails with \<open>errorNonSquareMatrix\<close>. The bound \<^verbatim>\<open>1e-9\<close> on the distance of
  \<open>L * U\<close> from the matrix is left out.
\<close>

theorem LUDecomposition_doolittle:
  "(\<not> IsSquare m \<longrightarrow> LUDecomposition m = Inl errorNonSquareMatrix)
   \<and> (IsSquare m \<and> well_formed m \<longrightarrow>
        (\<exists>l u. LUDecomposition m = Inr (l, u)
           \<and> shaped (NumberOfRows m) (NumberOfRows m) l
           \<and> shaped (NumberOfRows m) (NumberOfRows m) u
           \<and> (\<forall>r<NumberOfRows m. Get l r r = Inr 1)
           \<and> (\<forall>r<NumberOfRows m. \<forall>c<NumberOfRows m.
                 r < c \<longrightarrow> Get l r c = Inr 0 \<and> Get u c r = Inr 0)
           \<and> (\<forall>i<NumberOfRows m. \<forall>k<NumberOfRows m.
                 i \<le> k \<longrightarrow> Get u i k = Inr (doolittle_U m l u i k))
           \<and> (\<forall>i<NumberOfRows m. \<forall>k<NumberOfRows m.
                 i < k \<longrightarrow> Get l k i = Inr (doolittle_L m l u k i))))"
proof (intro conjI impI)
  assume "\<not> IsSquare m"
  then show "LUDecomposition m = Inl errorNonSquareMatrix" by (simp add: LUDecomposition_def)
next
  let ?n = "NumberOfRows m"
  assume "IsSquare m \<and> well_formed m"
  then have sh: "shaped ?n ?n m" by (simp add: shaped_square)
  from LUDecomposition_spec [OF sh]
  obtain l u where lu: "LUDecomposition m = Inr (l, u)" "lower_unit ?n ?n l" "upper ?n u"
    and U: "\<forall>i<?n. \<forall>k<?n. i \<le> k \<longrightarrow> entry u i k = doolittle_U m l u i k"
    and L: "\<forall>i<?n. \<forall>k<?n. i < k \<longrightarrow> entry l k i = doolittle_L m l u k i"
    by blast
  then have sl: "shaped ?n ?n l" and su: "shaped ?n ?n u" by (simp_all add: lower_unit_def upper_def)
  have "\<forall>r<?n. Get l r r = Inr 1"
    using lu(2) Get_shaped [OF sl] by (simp add: lower_unit_def)
  moreover have "\<forall>r<?n. \<forall>c<?n. r < c \<longrightarrow> Get l r c = Inr 0 \<and> Get u c r = Inr 0"
    using lu(2,3) Get_shaped [OF sl] Get_shaped [OF su] by (simp add: lower_unit_def upper_def)
  moreover have "\<forall>i<?n. \<forall>k<?n. i \<le> k \<longrightarrow> Get u i k = Inr (doolittle_U m l u i k)"
    using U Get_shaped [OF su] by simp
  moreover have "\<forall>i<?n. \<forall>k<?n. i < k \<longrightarrow> Get l k i = Inr (doolittle_L m l u k i)"
    using L Get_shaped [OF sl] by simp
  ultimately show "\<exists>l u. LUDecomposition m = Inr (l, u) \<and> shaped ?n ?n l \<and> shaped ?n ?n u
           \<and> (\<forall>r<?n. Get l r r = Inr 1)
           \<and> (\<forall>r<?n. \<forall>c<?n. r < c \<longrightarrow> Get l r c = Inr 0 \<and> Get u c r = Inr 0)
           \<and> (\<forall>i<?n. \<forall>k<?n. i \<le> k \<longrightarrow> Get u i k = Inr (doolittle_U m l u i k))
           \<and> (\<forall>i<?n. \<forall>k<?n. i < k \<longrightarrow> Get l k i = Inr (doolittle_L m l u k i))"
    using lu(1) sl su by blast
qed


theorem LUDecomposition_doolittle_witness:
  "IsSquare small_pivot \<and> well_formed small_pivot
   \<and> LUDecomposition small_pivot = Inr (small_pivot_L, small_pivot_U)
   \<and> Get small_pivot_L 1 1 = Inr 1 \<and> Get small_pivot_L 0 1 = Inr 0
   \<and> Get small_pivot_U 1 0 = Inr 0
   \<and> Get small_pivot_U 1 1 = Inr (doolittle_U small_pivot small_pivot_L small_pivot_U 1 1)
   \<and> Get small_pivot_L 1 0 = Inr (doolittle_L small_pivot small_pivot_L small_pivot_U 1 0)
   \<and> \<not> IsSquare (matrix_of 1 2 [1, 2])
   \<and> LUDecomposition (matrix_of 1 2 [1, 2]) = Inl errorNonSquareMatrix"
proof -
  have sq: "IsSquare small_pivot" "well_formed small_pivot" "NumberOfRows small_pivot = 2"
    by (simp_all add: IsSquare_def well_formed_def small_pivot_def)
  have ns: "\<not> IsSquare (matrix_of 1 2 [1, 2])"
    by (simp add: IsSquare_def matrix_of_def)
  have e: "LUDecomposition small_pivot = Inr (small_pivot_L, small_pivot_U)"
    by (simp add: small_pivot_def small_pivot_L_def small_pivot_U_def lu_eval matrix_eval f64_eval)
  from LUDecomposition_doolittle [of small_pivot] sq e
  have lu: "\<forall>r<2. Get small_pivot_L r r = Inr 1"
    "\<forall>r<2. \<forall>c<2. r < c \<longrightarrow> Get small_pivot_L r c = Inr 0 \<and> Get small_pivot_U c r = Inr 0"
    "\<forall>i<2. \<forall>k<2. i \<le> k \<longrightarrow>
       Get small_pivot_U i k = Inr (doolittle_U small_pivot small_pivot_L small_pivot_U i k)"
    "\<forall>i<2. \<forall>k<2. i < k \<longrightarrow>
       Get small_pivot_L k i = Inr (doolittle_L small_pivot small_pivot_L small_pivot_U k i)"
    by auto
  from lu(1) have "Get small_pivot_L 1 1 = Inr 1" by simp
  moreover from lu(2) have "Get small_pivot_L 0 1 = Inr 0" "Get small_pivot_U 1 0 = Inr 0"
    by simp_all
  moreover from lu(3)
  have "Get small_pivot_U 1 1 = Inr (doolittle_U small_pivot small_pivot_L small_pivot_U 1 1)"
    by simp
  moreover from lu(4)
  have "Get small_pivot_L 1 0 = Inr (doolittle_L small_pivot small_pivot_L small_pivot_U 1 0)"
    by simp
  moreover from LUDecomposition_doolittle [of "matrix_of 1 2 [1, 2]"] ns
  have "LUDecomposition (matrix_of 1 2 [1, 2]) = Inl errorNonSquareMatrix" by simp
  ultimately show ?thesis using sq(1,2) ns e by blast
qed

text \<open>
  C7: \<^verbatim>\<open>Inverse\<close> fails with \<open>errorNonSquareMatrix\<close> on every matrix that is not square; on a
  square matrix it fails with \<open>errorNotInversible\<close> exactly when the determinant it computed
  (the value \<^verbatim>\<open>Determinant\<close> returns) compares equal to 0.0 with \<^verbatim>\<open>==\<close>, and returns a matrix
  otherwise, however small the determinant. A failure is a value \<open>Inl\<close>, which carries no
  matrix.
\<close>

theorem Inverse_failures:
  "(\<not> IsSquare m \<longrightarrow> Inverse m = Inl errorNonSquareMatrix)
   \<and> (IsSquare m \<and> well_formed m \<longrightarrow>
        (\<exists>det. Determinant m = Inr det
           \<and> (Inverse m = Inl errorNotInversible \<longleftrightarrow> feq det 0)
           \<and> (\<not> feq det 0 \<longrightarrow> (\<exists>x. Inverse m = Inr x))))"
proof (intro conjI impI)
  assume "\<not> IsSquare m"
  then show "Inverse m = Inl errorNonSquareMatrix" by (rule Inverse_not_square)
next
  let ?n = "NumberOfRows m"
  assume "IsSquare m \<and> well_formed m"
  then have sh: "shaped ?n ?n m" by (simp add: shaped_square)
  from determinantLU_returns [OF sh]
  obtain det l u where d: "determinantLU m = Inr (det, l, u)" "Determinant m = Inr det"
    by blast
  have "Inverse m = Inl errorNotInversible \<longleftrightarrow> feq det 0"
  proof (cases "feq det 0")
    case True
    then show ?thesis using Inverse_singular [OF d(1)] by simp
  next
    case False
    then obtain x where "Inverse m = Inr x" using Inverse_regular [OF sh d(1)] by auto
    then show ?thesis using False by simp
  qed
  moreover have "\<not> feq det 0 \<longrightarrow> (\<exists>x. Inverse m = Inr x)"
    using Inverse_regular [OF sh d(1)] by auto
  ultimately show "\<exists>det. Determinant m = Inr det
           \<and> (Inverse m = Inl errorNotInversible \<longleftrightarrow> feq det 0)
           \<and> (\<not> feq det 0 \<longrightarrow> (\<exists>x. Inverse m = Inr x))"
    using d(2) by blast
qed

theorem Inverse_failures_witness:
  "IsSquare (matrix_of 2 2 [1, 2, 2, 4]) \<and> well_formed (matrix_of 2 2 [1, 2, 2, 4])
   \<and> Determinant (matrix_of 2 2 [1, 2, 2, 4]) = Inr 0 \<and> feq 0 0
   \<and> Inverse (matrix_of 2 2 [1, 2, 2, 4]) = Inl errorNotInversible
   \<and> IsSquare least_positive \<and> well_formed least_positive
   \<and> Determinant least_positive = Inr (Fin False 1 (- 1074)) \<and> \<not> feq (Fin False 1 (- 1074)) 0
   \<and> (\<exists>x. Inverse least_positive = Inr x)
   \<and> \<not> IsSquare (matrix_of 1 2 [1, 2])
   \<and> Inverse (matrix_of 1 2 [1, 2]) = Inl errorNonSquareMatrix"
proof -
  have sq: "IsSquare (matrix_of 2 2 [1, 2, 2, 4])" "well_formed (matrix_of 2 2 [1, 2, 2, 4])"
    by (simp_all add: IsSquare_def well_formed_def matrix_of_def)
  have det: "Determinant (matrix_of 2 2 [1, 2, 2, 4]) = Inr 0"
    by (simp add: lu_eval matrix_eval f64_eval)
  have z: "feq 0 0" by (simp add: zero_f64_def)
  have sq': "IsSquare least_positive" "well_formed least_positive"
    by (simp_all add: IsSquare_def well_formed_def least_positive_def)
  have det': "Determinant least_positive = Inr (Fin False 1 (- 1074))"
    by (simp add: least_positive_def lu_eval matrix_eval f64_eval)
  have nz: "\<not> feq (Fin False 1 (- 1074)) 0" by (simp add: zero_f64_def)
  have ns: "\<not> IsSquare (matrix_of 1 2 [1, 2])"
    by (simp add: IsSquare_def matrix_of_def)
  from Inverse_failures [of "matrix_of 2 2 [1, 2, 2, 4]"] sq det z
  have "Inverse (matrix_of 2 2 [1, 2, 2, 4]) = Inl errorNotInversible" by auto
  moreover from Inverse_failures [of least_positive] sq' det' nz
  have "\<exists>x. Inverse least_positive = Inr x" by auto
  moreover from Inverse_failures [of "matrix_of 1 2 [1, 2]"] ns
  have "Inverse (matrix_of 1 2 [1, 2]) = Inl errorNonSquareMatrix" by simp
  ultimately show ?thesis using sq det z sq' det' nz ns by blast
qed

text \<open>
  C1, as stated: for a square matrix whose determinant is not 0.0, \<^verbatim>\<open>Inverse\<close> succeeds and the
  product of the matrix with its inverse is the identity within tolerance. It fails on
  \<open>[2^-60  1; 1  1]\<close>: the computed determinant is -1, \<^verbatim>\<open>Inverse\<close> returns
  \<open>[0  1; 1  -2^-60]\<close>, and the product has 1 at (1, 0) where the identity has 0.
\<close>

theorem Inverse_small_pivot_counterexample:
  "IsSquare small_pivot
   \<and> Determinant small_pivot = Inr (Fin True 1 0) \<and> \<not> feq (Fin True 1 0) 0
   \<and> Inverse small_pivot = Inr small_pivot_inverse
   \<and> bind (Multiply small_pivot small_pivot_inverse) (\<lambda>p. Get p 1 0) = Inr 1
   \<and> bind (NewIdentity 2) (\<lambda>i. Get i 1 0) = Inr 0
   \<and> \<not> tolerance 1 0 tol_1e9"
  by (simp add: small_pivot_def small_pivot_inverse_def lu_eval inverse_eval Multiply_def
      matrix_eval tolerance_def tol_1e9_def f64_eval)

text \<open>
  C1, amended: for every square matrix \<open>A\<close> (of the data model: a buffer of \<open>rows * cols\<close>
  elements) whose computed determinant does not compare equal to 0.0, \<^verbatim>\<open>Inverse\<close> returns
  without error a matrix \<open>X\<close> of the same size, and \<open>X\<close> is what the two substitutions of the
  specification give from the factors \<open>L\<close> and \<open>U\<close> that \<^verbatim>\<open>LUDecomposition\<close> returns for \<open>A\<close>,
  with the operations of float64, each of them rounded: there is a \<open>Y\<close> with
  \<open>Y[i][k] = (I[i][k] - \<Sum> L[i][j] * Y[j][k]) / L[i][i]\<close> and
  \<open>X[r][c] = (Y[r][c] - \<Sum> U[r][p] * X[p][c]) / U[r][r]\<close>. \<^verbatim>\<open>Multiply\<close> of \<open>A\<close> with \<open>X\<close> returns
  without error the matrix of that size whose element at \<open>(i, j)\<close> is the rounded sum of
  the rounded products \<open>A[i][k] * X[k][j]\<close>. The tolerance on the distance of that product
  from the identity is left out.
\<close>

theorem Inverse_substitution:
  "IsSquare m \<and> well_formed m \<and> Determinant m = Inr det \<and> \<not> feq det 0 \<longrightarrow>
     (\<exists>l u y x. LUDecomposition m = Inr (l, u) \<and> Inverse m = Inr x
        \<and> shaped (NumberOfRows m) (NumberOfRows m) y
        \<and> shaped (NumberOfRows m) (NumberOfRows m) x
        \<and> (\<forall>i<NumberOfRows m. \<forall>k<NumberOfRows m. entry y i k = forward_entry l y i k)
        \<and> (\<forall>r<NumberOfRows m. \<forall>c<NumberOfRows m.
              Get x r c = Inr (backward_entry u y x r c))
        \<and> (\<exists>p. Multiply m x = Inr p \<and> shaped (NumberOfRows m) (NumberOfRows m) p
              \<and> (\<forall>i<NumberOfRows m. \<forall>j<NumberOfRows m.
                    Get p i j = Inr (dot [0..<NumberOfRows m] (entry m i) (\<lambda>k. entry x k j)))))"
proof
  let ?n = "NumberOfRows m"
  assume a: "IsSquare m \<and> well_formed m \<and> Determinant m = Inr det \<and> \<not> feq det 0"
  then have sh: "shaped ?n ?n m" by (simp add: shaped_square)
  from determinantLU_returns [OF sh]
  obtain d l u where d: "LUDecomposition m = Inr (l, u)" "determinantLU m = Inr (d, l, u)"
    "Determinant m = Inr d"
    by blast
  with a have nz: "\<not> feq d 0" by simp
  from Inverse_spec [OF sh d(2) nz]
  obtain y x where x: "Inverse m = Inr x" "shaped ?n ?n y" "shaped ?n ?n x"
    and Y: "\<forall>r<?n. \<forall>c<?n. entry y r c = forward_entry l y r c"
    and X: "\<forall>r<?n. \<forall>c<?n. entry x r c = backward_entry u y x r c"
    by blast
  from Multiply_spec [OF sh x(3) shaped_fit [OF sh]]
  obtain p where p: "Multiply m x = Inr p" "shaped ?n ?n p"
    and P: "\<forall>i<?n. \<forall>j<?n. entry p i j = dot [0..<?n] (entry m i) (\<lambda>k. entry x k j)"
    by blast
  have Xg: "\<forall>r<?n. \<forall>c<?n. Get x r c = Inr (backward_entry u y x r c)"
    using X Get_shaped [OF x(3)] by simp
  have Pg: "\<forall>i<?n. \<forall>j<?n. Get p i j = Inr (dot [0..<?n] (entry m i) (\<lambda>k. entry x k j))"
    using P Get_shaped [OF p(2)] by simp
  have "\<exists>p. Multiply m x = Inr p \<and> shaped ?n ?n p
          \<and> (\<forall>i<?n. \<forall>j<?n. Get p i j = Inr (dot [0..<?n] (entry m i) (\<lambda>k. entry x k j)))"
    using p Pg by (intro exI [of _ p] conjI)
  then show "\<exists>l u y x. LUDecomposition m = Inr (l, u) \<and> Inverse m = Inr x
        \<and> shaped ?n ?n y \<and> shaped ?n ?n x
        \<and> (\<forall>i<?n. \<forall>k<?n. entry y i k = forward_entry l y i k)
        \<and> (\<forall>r<?n. \<forall>c<?n. Get x r c = Inr (backward_entry u y x r c))
        \<and> (\<exists>p. Multiply m x = Inr p \<and> shaped ?n ?n p
              \<and> (\<forall>i<?n. \<forall>j<?n.
                    Get p i j = Inr (dot [0..<?n] (entry m i) (\<lambda>k. entry x k j))))"
    using d(1) x Y Xg
    by - (rule exI [of _ l], rule exI [of _ u], rule exI [of _ y], rule exI [of _ x], simp)
qed

theorem Inverse_substitution_witness:
  "IsSquare (matrix_of 2 2 [1, 2, 3, 4]) \<and> well_formed (matrix_of 2 2 [1, 2, 3, 4])
   \<and> Determinant (matrix_of 2 2 [1, 2, 3, 4]) = Inr (float64 (- 2)) \<and> \<not> feq (float64 (- 2)) 0
   \<and> (\<exists>l u y x. LUDecomposition (matrix_of 2 2 [1, 2, 3, 4]) = Inr (l, u)
        \<and> Inverse (matrix_of 2 2 [1, 2, 3, 4]) = Inr x
        \<and> entry y 1 0 = forward_entry l y 1 0
        \<and> Get x 0 1 = Inr (backward_entry u y x 0 1)
        \<and> (\<exists>p. Multiply (matrix_of 2 2 [1, 2, 3, 4]) x = Inr p \<and> shaped 2 2 p
              \<and> Get p 1 0 = Inr (dot [0..<2] (entry (matrix_of 2 2 [1, 2, 3, 4]) 1)
                                   (\<lambda>k. entry x k 0))))"
proof -
  let ?A = "matrix_of 2 2 [1, 2, 3, 4]"
  have sq: "IsSquare ?A" "well_formed ?A" "NumberOfRows ?A = 2"
    by (simp_all add: IsSquare_def well_formed_def matrix_of_def)
  have det: "Determinant ?A = Inr (float64 (- 2))"
    by (simp add: lu_eval matrix_eval f64_eval)
  have nz: "\<not> feq (float64 (- 2)) 0" by (simp add: f64_eval)
  from Inverse_substitution [of ?A "float64 (- 2)"] sq(1,2) det nz
  obtain l u y x p where r: "LUDecomposition ?A = Inr (l, u)" "Inverse ?A = Inr x"
    "\<forall>i<2. \<forall>k<2. entry y i k = forward_entry l y i k"
    "\<forall>r<2. \<forall>c<2. Get x r c = Inr (backward_entry u y x r c)"
    "Multiply ?A x = Inr p" "shaped 2 2 p"
    "\<forall>i<2. \<forall>j<2. Get p i j = Inr (dot [0..<2] (entry ?A i) (\<lambda>k. entry x k j))"
    unfolding sq(3) by blast
  from r(3) have "entry y 1 0 = forward_entry l y 1 0" by simp
  moreover from r(4) have "Get x 0 1 = Inr (backward_entry u y x 0 1)" by simp
  moreover from r(7) have "Get p 1 0 = Inr (dot [0..<2] (entry ?A 1) (\<lambda>k. entry x k 0))" by simp
  ultimately show ?thesis using sq(1,2) det nz r(1,2,5,6) by blast
qed


section \<open>Determinant of the identity\<close>











section \<open>The cycles of nonSquareTranspose\<close>

lemma transpose_index_less:
  assumes "p < R * C"
  shows "transpose_index R C p < R * C"
proof -
  have R: "0 < R" using assms by (cases R) simp_all
  have "p div R < C" using assms by (simp add: less_mult_imp_div_less mult.commute)
  moreover have "p mod R < R" using R by simp
  ultimately show ?thesis unfolding transpose_index_def by (intro index_bound)
qed

lemma transpose_index_pair:
  "r < R \<Longrightarrow> transpose_index R C (c * R + r) = r * C + c"
  by (simp add: transpose_index_def)

lemma transpose_index_twice:
  assumes "p < R * C"
  shows "transpose_index R C (transpose_index C R p) = p"
proof -
  have "p div C < R" using assms by (simp add: less_mult_imp_div_less)
  then show ?thesis
    by (simp add: transpose_index_def [of C R] transpose_index_pair)
qed

lemma transpose_index_inj:
  assumes "p < R * C" "q < R * C" "transpose_index R C p = transpose_index R C q"
  shows "p = q"
proof -
  have "p div R < C" "q div R < C" using assms(1,2) by (simp_all add: less_mult_imp_div_less mult.commute)
  then have "p mod R = q mod R \<and> p div R = q div R"
    using assms(3) index_inj [of "p div R" C "q div R" "p mod R" "q mod R"]
    by (simp add: transpose_index_def)
  then have "p div R * R + p mod R = q div R * R + q mod R" by simp
  then show ?thesis by (simp only: div_mult_mod_eq)
qed

lemma funpow_closed:
  assumes "\<And>y. y \<in> S \<Longrightarrow> f y \<in> S" "x \<in> S"
  shows "(f ^^ n) x \<in> S"
  using assms by (induction n) simp_all

lemma funpow_inj_on:
  assumes "\<And>y. y \<in> S \<Longrightarrow> f y \<in> S" "inj_on f S"
  shows "inj_on (f ^^ n) S"
proof (induction n)
  case 0
  show ?case by simp
next
  case (Suc n)
  have "inj_on (f \<circ> (f ^^ n)) S"
  proof (rule comp_inj_on [OF Suc])
    have "(f ^^ n) ` S \<subseteq> S" using funpow_closed [of S f] assms(1) by blast
    then show "inj_on f ((f ^^ n) ` S)" using assms(2) by (rule inj_on_subset [rotated])
  qed
  then show ?case by (simp add: o_def)
qed

lemma orbit_returns:
  assumes fin: "finite S" and cl: "\<And>y. y \<in> S \<Longrightarrow> f y \<in> S" and inj: "inj_on f S" and x: "x \<in> S"
  shows "\<exists>k. (f ^^ Suc k) x = x"
proof -
  define g where "g n = (f ^^ n) x" for n
  have mem: "g n \<in> S" for n unfolding g_def by (rule funpow_closed [OF cl x])
  then have sub: "g ` {..card S} \<subseteq> S" by blast
  have "card (g ` {..card S}) \<le> card S" using fin sub by (simp add: card_mono)
  then have "card (g ` {..card S}) < card {..card S}" by simp
  then have "\<not> inj_on g {..card S}" by (rule pigeonhole)
  then obtain a b where ab: "a \<noteq> b" "g a = g b" unfolding inj_on_def by blast
  have main: "\<exists>k. (f ^^ Suc k) x = x" if lt: "a < b" and eq: "g a = g b" for a b
  proof -
    obtain k where "b = Suc (a + k)" using less_imp_Suc_add [OF lt] by blast
    then have k: "b = a + Suc k" by simp
    have "(f ^^ a) x = (f ^^ (a + Suc k)) x" using eq unfolding k g_def .
    also have "\<dots> = (f ^^ a) ((f ^^ Suc k) x)" by (simp only: funpow_add comp_apply)
    finally have e: "(f ^^ a) x = (f ^^ a) ((f ^^ Suc k) x)" .
    have ia: "inj_on (f ^^ a) S" by (rule funpow_inj_on [OF cl inj])
    have "(f ^^ Suc k) x \<in> S" by (rule funpow_closed [OF cl x])
    with ia e x have "x = (f ^^ Suc k) x" by (rule inj_onD)
    then show ?thesis by (intro exI [of _ k]) simp
  qed
  show ?thesis
  proof (cases "a < b")
    case True
    then show ?thesis using ab(2) by (rule main)
  next
    case False
    then have "b < a" using ab(1) by simp
    then show ?thesis using ab(2) [symmetric] by (rule main)
  qed
qed

lemma cycle_returns:
  assumes "start < R * C"
  shows "\<exists>k. (transpose_index R C ^^ Suc k) start = start"
proof (rule orbit_returns [where S = "{..<R * C}"])
  show "inj_on (transpose_index R C) {..<R * C}"
    by (auto simp: inj_on_def intro: transpose_index_inj)
qed (use assms in \<open>simp_all add: transpose_index_less\<close>)

lemma cycle_next_eq: "0 < R \<Longrightarrow> cycle_next R C j = Inr (transpose_index R C j)"
  by (simp add: cycle_next_def transpose_index_def)

lemma scan_cycle_returns:
  assumes "0 < R" and "(transpose_index R C ^^ Suc k) j \<le> start"
  shows "\<exists>r. scan_cycle R C start (i, j) = Some (Inr r)"
  using assms(2)
proof (induction k arbitrary: i j)
  case 0
  then show ?case
    by (subst scan_cycle.simps) (simp add: cycle_next_eq [OF assms(1)])
next
  case (Suc k)
  have "(transpose_index R C ^^ Suc k) (transpose_index R C j) \<le> start"
    using Suc.prems by (simp only: funpow_Suc_right comp_apply)
  from Suc.IH [OF this]
  show ?case
    by (subst scan_cycle.simps) (simp add: cycle_next_eq [OF assms(1)])
qed

lemma copy_step_copied:
  assumes R: "0 < R" and src: "length src = R * C" and tmp: "tmp = src ! start"
    and j: "j < R * C" and ret: "copied R C src S ret"
  shows "\<exists>ret'. copy_step R C src start tmp (j, ret) = Inr (transpose_index R C j, ret')
           \<and> copied R C src (insert j S) ret'"
proof -
  let ?i = "transpose_index R C j"
  have i: "?i < R * C" using j by (rule transpose_index_less)
  have len: "length ret = R * C" using ret by (simp add: copied_def)
  let ?ret' = "ret[j := src ! ?i]"
  have "copy_step R C src start tmp (j, ret) = Inr (?i, ?ret')"
    using i j len src tmp
    by (simp add: copy_step_def cycle_next_eq [OF R] index_read_def index_write_def)
  moreover have "copied R C src (insert j S) ?ret'"
    using ret j by (auto simp: copied_def nth_list_update)
  ultimately show ?thesis by blast
qed

lemma copy_cycle_returns:
  assumes R: "0 < R" and src: "length src = R * C" and tmp: "tmp = src ! start"
    and k: "(transpose_index R C ^^ Suc k) j \<le> start"
    and j: "j < R * C" and ret: "copied R C src S ret"
  shows "\<exists>i ret'. copy_cycle R C src start tmp (j, ret) = Some (Inr (i, ret'))
           \<and> copied R C src (insert j S) ret'"
  using k j ret
proof (induction k arbitrary: j ret S)
  case 0
  obtain ret' where s: "copy_step R C src start tmp (j, ret) = Inr (transpose_index R C j, ret')"
    "copied R C src (insert j S) ret'"
    using copy_step_copied [OF R src tmp "0.prems"(2,3)] by blast
  then show ?case using "0.prems"(1)
    by (subst copy_cycle.simps) simp
next
  case (Suc k)
  let ?i = "transpose_index R C j"
  obtain ret' where s: "copy_step R C src start tmp (j, ret) = Inr (?i, ret')"
    "copied R C src (insert j S) ret'"
    using copy_step_copied [OF R src tmp Suc.prems(2,3)] by blast
  have "(transpose_index R C ^^ Suc k) ?i \<le> start"
    using Suc.prems(1) by (simp only: funpow_Suc_right comp_apply)
  from Suc.IH [OF this transpose_index_less [OF Suc.prems(2)] s(2)]
  obtain i2 ret2 where r: "copy_cycle R C src start tmp (?i, ret') = Some (Inr (i2, ret2))"
    "copied R C src (insert ?i (insert j S)) ret2" by blast
  then have "copied R C src (insert j S) ret2" by (simp add: copied_def)
  then show ?case using s r(1)
    by (subst copy_cycle.simps) auto
qed

lemma transpose_cycle_returns:
  assumes m: "well_formed m" and start: "start < NumberOfRows m * NumberOfColumns m"
    and ret: "copied (NumberOfRows m) (NumberOfColumns m) (M m) {..<start} ret"
  shows "\<exists>ret'. transpose_cycle m start ret = Some (Inr ret')
           \<and> copied (NumberOfRows m) (NumberOfColumns m) (M m) {..<Suc start} ret'"
proof -
  let ?R = "NumberOfRows m" and ?C = "NumberOfColumns m"
  have R: "0 < ?R" using start by (cases ?R) simp_all
  have src: "length (M m) = ?R * ?C" using m by (simp add: well_formed_def)
  obtain k where "(transpose_index ?R ?C ^^ Suc k) start = start"
    using cycle_returns [OF start] by blast
  then have k: "(transpose_index ?R ?C ^^ Suc k) start \<le> start" by simp
  obtain r where r: "scan_cycle ?R ?C start (0, start) = Some (Inr r)"
    using scan_cycle_returns [OF R k] by blast
  have rd: "index_read (M m) start = Inr (M m ! start)"
    using start src by (simp add: index_read_def)
  obtain i ret' where c: "copy_cycle ?R ?C (M m) start (M m ! start) (start, ret) = Some (Inr (i, ret'))"
    "copied ?R ?C (M m) (insert start {..<start}) ret'"
    using copy_cycle_returns [OF R src refl k start ret] by blast
  have "insert start {..<start} = {..<Suc start}" by auto
  then show ?thesis using r rd c by (simp add: transpose_cycle_def)
qed

lemma for_loop_opt_step:
  "lo < hi \<Longrightarrow> for_loop_opt lo hi body s =
     (case body lo s of None \<Rightarrow> None | Some (Inl e) \<Rightarrow> Some (Inl e)
      | Some (Inr s') \<Rightarrow> for_loop_opt (Suc lo) hi body s')"
  by (simp add: for_loop_opt.simps [of lo])

lemma for_loop_opt_stop [simp]: "\<not> lo < hi \<Longrightarrow> for_loop_opt lo hi body s = Some (Inr s)"
  by (simp add: for_loop_opt.simps [of lo])

lemma for_loop_opt_rule:
  assumes "I lo s" and "lo \<le> hi"
    and "\<And>i s. lo \<le> i \<Longrightarrow> i < hi \<Longrightarrow> I i s \<Longrightarrow> \<exists>s'. body i s = Some (Inr s') \<and> I (Suc i) s'"
  shows "\<exists>s'. for_loop_opt lo hi body s = Some (Inr s') \<and> I hi s'"
  using assms
proof (induction "hi - lo" arbitrary: lo s)
  case 0
  then show ?case by simp
next
  case (Suc d)
  then have lt: "lo < hi" by simp
  from Suc.prems(3) [of lo s] lt Suc.prems(1)
  obtain s1 where s1: "body lo s = Some (Inr s1)" "I (Suc lo) s1" by auto
  have "\<exists>s'. for_loop_opt (Suc lo) hi body s1 = Some (Inr s') \<and> I hi s'"
  proof (rule Suc.hyps(1))
    show "d = hi - Suc lo" using Suc.hyps(2) by simp
    show "I (Suc lo) s1" by (rule s1)
    show "Suc lo \<le> hi" using lt by simp
    show "\<And>i s. Suc lo \<le> i \<Longrightarrow> i < hi \<Longrightarrow> I i s \<Longrightarrow> \<exists>s'. body i s = Some (Inr s') \<and> I (Suc i) s'"
      using Suc.prems(3) by simp
  qed
  then show ?case using lt s1 by (simp add: for_loop_opt_step)
qed

lemma count_last_index:
  assumes "P < 2 ^ 63"
  shows "nat (to_int (usub (uint P) 1) + 1) = P"
proof (cases "P = 0")
  case True
  show ?thesis unfolding True by (simp add: uint_def usub_def to_int_def)
next
  case False
  have "usub (uint P) 1 = P - 1"
    using False assms by (simp add: uint_small usub_small)
  moreover have "to_int (P - 1) = int (P - 1)"
    using assms by (intro to_int_small) simp
  ultimately show ?thesis using False by simp
qed

lemma nat_last_index: "R * C < 2 ^ 63 \<Longrightarrow> nat (last_index R C + 1) = R * C"
  unfolding last_index_def by (rule count_last_index)

lemma copied_all:
  assumes "copied R C src {..<R * C} ret"
  shows "ret = map (\<lambda>p. src ! transpose_index R C p) [0..<R * C]"
  using assms by (intro nth_equalityI) (simp_all add: copied_def)

lemma nonSquareTranspose_eq:
  assumes "well_formed m"
  shows "nonSquareTranspose m = Some (Inr (transposed m))"
proof -
  let ?R = "NumberOfRows m" and ?C = "NumberOfColumns m"
  have "\<exists>xs. for_loop_opt 0 (?R * ?C) (transpose_cycle m) (replicate (?C * ?R) 0) = Some (Inr xs)
          \<and> copied ?R ?C (M m) {..<?R * ?C} xs"
  proof (rule for_loop_opt_rule [where I = "\<lambda>i. copied ?R ?C (M m) {..<i}"])
    show "copied ?R ?C (M m) {..<0} (replicate (?C * ?R) 0)"
      by (simp add: copied_def mult.commute)
  next
    fix i and s :: "'a list"
    assume "i < ?R * ?C" "copied ?R ?C (M m) {..<i} s"
    then show "\<exists>s'. transpose_cycle m i s = Some (Inr s') \<and> copied ?R ?C (M m) {..<Suc i} s'"
      by (rule transpose_cycle_returns [OF assms])
  qed simp
  then obtain xs where xs: "for_loop_opt 0 (?R * ?C) (transpose_cycle m) (replicate (?C * ?R) 0) = Some (Inr xs)"
    "copied ?R ?C (M m) {..<?R * ?C} xs" by blast
  have fit: "?C * ?R < 2 ^ 63" using assms by (simp add: well_formed_def mult.commute)
  then have bound: "nat (last_index ?R ?C + 1) = ?R * ?C"
    by (intro nat_last_index) (simp add: mult.commute)
  show ?thesis
    using xs(1) copied_all [OF xs(2)]
    by (simp add: nonSquareTranspose_def NewMatrix_eq [OF fit] bound transposed_def zeros_def)
qed

section \<open>The loops of the square Transpose\<close>

lemma copied_mono: "copied R C src S ret \<Longrightarrow> T \<subseteq> S \<Longrightarrow> copied R C src T ret"
  by (auto simp: copied_def)

lemma filled_mono: "filled m S ret \<Longrightarrow> T \<subseteq> S \<Longrightarrow> filled m T ret"
  by (auto simp: filled_def intro: copied_mono)

lemma filled_Set:
  assumes m: "shaped n n m" and ret: "filled m S ret" and x: "x < n" and y: "y < n"
  shows "\<exists>ret'. bind (Get m y x) (\<lambda>v. Set ret x y v) = Inr ret'
           \<and> filled m (insert (x * n + y) S) ret'"
proof -
  have n: "NumberOfRows m = n" using m by (simp add: shaped_def)
  from ret have sh: "shaped n n ret" and cp: "copied n n (M m) S (M ret)"
    and rs: "M_reserve ret = []"
    by (simp_all add: filled_def n)
  have lt: "x * n + y < n * n" using x y by (rule index_bound)
  let ?ret' = "ret\<lparr>M := (M ret)[x * n + y := entry m y x]\<rparr>"
  have "transpose_index n n (x * n + y) = y * n + x" using y by (rule transpose_index_pair)
  then have e: "entry m y x = M m ! transpose_index n n (x * n + y)"
    using m by (simp add: entry_def shaped_def)
  have "copied n n (M m) (insert (x * n + y) S) (M ?ret')"
    unfolding copied_def
  proof (intro conjI ballI impI)
    show "length (M ?ret') = n * n" using cp by (simp add: copied_def)
    fix p assume p: "p \<in> insert (x * n + y) S" "p < n * n"
    show "M ?ret' ! p = M m ! transpose_index n n p"
    proof (cases "p = x * n + y")
      case True
      then show ?thesis using e lt cp by (simp add: copied_def)
    next
      case False
      then show ?thesis using p cp by (simp add: copied_def)
    qed
  qed
  then have "filled m (insert (x * n + y) S) ?ret'"
    using Set_shaped(2) [OF sh x y] rs by (simp add: filled_def n)
  then show ?thesis
    using Get_shaped [OF m y x] Set_shaped(1) [OF sh x y] by simp
qed

lemma diag_places_Suc: "diag_places n (Suc k) \<subseteq> insert (k * n + k) (diag_places n k)"
  by (auto simp: diag_places_def less_Suc_eq)

lemma row_places_Suc:
  "row_places n i (Suc j) \<subseteq> insert (i * n + j) (insert (j * n + i) (row_places n i j))"
  by (auto simp: row_places_def less_Suc_eq)

lemma pair_places_Suc: "pair_places n (Suc i) \<subseteq> pair_places n i \<union> row_places n i n"
  by (auto simp: pair_places_def row_places_def less_Suc_eq)

lemma all_places:
  assumes "p < n * n"
  shows "p \<in> diag_places n n \<union> pair_places n (n - 1)"
proof -
  let ?x = "p div n" and ?y = "p mod n"
  have n: "0 < n" using assms by (cases n) simp_all
  have x: "?x < n" using assms by (simp add: less_mult_imp_div_less)
  have y: "?y < n" using n by simp
  have p: "p = ?x * n + ?y" by simp
  consider "?x = ?y" | "?x < ?y" | "?y < ?x" by linarith
  then show ?thesis
  proof cases
    case 1
    then have "p = ?x * n + ?x" using p by simp
    then have "p \<in> diag_places n n" unfolding diag_places_def using x by blast
    then show ?thesis by simp
  next
    case 2
    then have "?x < n - 1" using y by linarith
    then have "p \<in> pair_places n (n - 1)" unfolding pair_places_def using 2 y p by blast
    then show ?thesis by simp
  next
    case 3
    then have "?y < n - 1" using x by linarith
    then have "p \<in> pair_places n (n - 1)" unfolding pair_places_def using 3 x p by blast
    then show ?thesis by simp
  qed
qed

lemma squareTranspose_eq:
  assumes m: "shaped n n m"
  shows "squareTranspose m = Inr (transposed m)"
proof -
  have dims: "NumberOfRows m = n" "NumberOfColumns m = n" using m by (simp_all add: shaped_def)
  have fit: "n * n < 2 ^ 63" using m by (rule shaped_fit)
  have ti: "to_int n = int n" using fit by (rule square_to_int)
  have "copied n n (M m) (diag_places n 0) (M (zeros n n :: 'a Matrix))"
    by (simp add: copied_def diag_places_def)
  then have init: "filled m (diag_places n 0) (zeros n n)"
    using fit by (simp add: filled_def dims)
  have "\<exists>ret. for_loop 0 n (\<lambda>k ret. bind (Get m k k) (\<lambda>v. Set ret k k v)) (zeros n n) = Inr ret
          \<and> filled m (diag_places n n) ret"
  proof (rule for_loop_rule [where I = "\<lambda>k. filled m (diag_places n k)"])
    fix k and s :: "'a Matrix"
    assume k: "k < n" and s: "filled m (diag_places n k) s"
    from filled_Set [OF m s k k]
    obtain ret' where "bind (Get m k k) (\<lambda>v. Set s k k v) = Inr ret'"
      "filled m (insert (k * n + k) (diag_places n k)) ret'" by blast
    then show "\<exists>s'. bind (Get m k k) (\<lambda>v. Set s k k v) = Inr s' \<and> filled m (diag_places n (Suc k)) s'"
      using filled_mono [OF _ diag_places_Suc] by blast
  qed (simp_all add: init)
  then obtain ret1 where ret1:
    "for_loop 0 n (\<lambda>k ret. bind (Get m k k) (\<lambda>v. Set ret k k v)) (zeros n n) = Inr ret1"
    "filled m (diag_places n n) ret1" by blast
  let ?D = "diag_places n n"
  have "\<exists>ret. for_loop 0 (n - 1)
       (\<lambda>i. for_loop (i + 1) n
          (\<lambda>j ret. bind (Get m i j) (\<lambda>a.
                   bind (Set ret j i a) (\<lambda>ret1.
                   bind (Get m j i) (\<lambda>b.
                   Set ret1 i j b))))) ret1 = Inr ret
          \<and> filled m (?D \<union> pair_places n (n - 1)) ret"
  proof (rule for_loop_rule [where I = "\<lambda>i. filled m (?D \<union> pair_places n i)"])
    show "filled m (?D \<union> pair_places n 0) ret1"
      using ret1(2) by (rule filled_mono) (auto simp: pair_places_def)
  next
    fix i and s :: "'a Matrix"
    assume i: "i < n - 1" and s: "filled m (?D \<union> pair_places n i) s"
    then have i_n: "i < n" by simp
    have "\<exists>s'. for_loop (i + 1) n
          (\<lambda>j ret. bind (Get m i j) (\<lambda>a.
                   bind (Set ret j i a) (\<lambda>ret1.
                   bind (Get m j i) (\<lambda>b.
                   Set ret1 i j b)))) s = Inr s'
             \<and> filled m (?D \<union> pair_places n i \<union> row_places n i n) s'"
    proof (rule for_loop_rule
        [where I = "\<lambda>j. filled m (?D \<union> pair_places n i \<union> row_places n i j)"])
      show "filled m (?D \<union> pair_places n i \<union> row_places n i (i + 1)) s"
        using s by (rule filled_mono) (auto simp: row_places_def)
      show "i + 1 \<le> n" using i by simp
    next
      fix j and t :: "'a Matrix"
      assume j: "j < n" and t: "filled m (?D \<union> pair_places n i \<union> row_places n i j) t"
      let ?S = "?D \<union> pair_places n i \<union> row_places n i j"
      from filled_Set [OF m t j i_n]
      obtain t1 where t1: "bind (Get m i j) (\<lambda>v. Set t j i v) = Inr t1"
        "filled m (insert (j * n + i) ?S) t1" by blast
      from filled_Set [OF m t1(2) i_n j]
      obtain t2 where t2: "bind (Get m j i) (\<lambda>v. Set t1 i j v) = Inr t2"
        "filled m (insert (i * n + j) (insert (j * n + i) ?S)) t2" by blast
      have "filled m (?D \<union> pair_places n i \<union> row_places n i (Suc j)) t2"
        using t2(2) by (rule filled_mono) (use row_places_Suc [of n i j] in blast)
      moreover have "bind (Get m i j) (\<lambda>a. bind (Set t j i a) (\<lambda>ret1.
                   bind (Get m j i) (\<lambda>b. Set ret1 i j b))) = Inr t2"
        using t1(1) t2(1) Get_shaped [OF m i_n j] by simp
      ultimately show "\<exists>s'. bind (Get m i j) (\<lambda>a. bind (Set t j i a) (\<lambda>ret1.
                   bind (Get m j i) (\<lambda>b. Set ret1 i j b))) = Inr s'
             \<and> filled m (?D \<union> pair_places n i \<union> row_places n i (Suc j)) s'" by blast
    qed
    then obtain s' where s': "for_loop (i + 1) n
          (\<lambda>j ret. bind (Get m i j) (\<lambda>a.
                   bind (Set ret j i a) (\<lambda>ret1.
                   bind (Get m j i) (\<lambda>b.
                   Set ret1 i j b)))) s = Inr s'"
        "filled m (?D \<union> pair_places n i \<union> row_places n i n) s'" by blast
    have "filled m (?D \<union> pair_places n (Suc i)) s'"
      using s'(2) by (rule filled_mono) (use pair_places_Suc [of n i] in blast)
    then show "\<exists>s'. for_loop (i + 1) n
          (\<lambda>j ret. bind (Get m i j) (\<lambda>a.
                   bind (Set ret j i a) (\<lambda>ret1.
                   bind (Get m j i) (\<lambda>b.
                   Set ret1 i j b)))) s = Inr s' \<and> filled m (?D \<union> pair_places n (Suc i)) s'"
      using s'(1) by blast
  qed simp
  then obtain ret2 where ret2: "for_loop 0 (n - 1)
       (\<lambda>i. for_loop (i + 1) n
          (\<lambda>j ret. bind (Get m i j) (\<lambda>a.
                   bind (Set ret j i a) (\<lambda>ret1.
                   bind (Get m j i) (\<lambda>b.
                   Set ret1 i j b))))) ret1 = Inr ret2"
     "filled m (?D \<union> pair_places n (n - 1)) ret2" by blast
  have "filled m {..<n * n} ret2"
    using ret2(2) by (rule filled_mono) (use all_places [of _ n] in blast)
  then have sh: "shaped n n ret2" and rs: "M_reserve ret2 = []"
    and "copied n n (M m) {..<n * n} (M ret2)"
    by (simp_all add: filled_def dims)
  then have "M ret2 = map (\<lambda>p. M m ! transpose_index n n p) [0..<n * n]"
    using copied_all by blast
  then have "ret2 = transposed m"
    using sh rs by (simp add: transposed_def dims shaped_def)
  moreover have "nat (int n - 1) = n - 1" by linarith
  ultimately show ?thesis
    using ret1(1) ret2(1) by (simp add: squareTranspose_def dims NewMatrix_eq [OF fit] ti)
qed

section \<open>Transpose returns the transposed matrix\<close>

lemma Transpose_eq:
  assumes "well_formed m"
  shows "Transpose m = Some (Inr (transposed m))"
proof (cases "IsSquare m")
  case True
  then have "shaped (NumberOfRows m) (NumberOfRows m) m" using assms by (rule shaped_square)
  then show ?thesis using True by (simp add: Transpose_def squareTranspose_eq)
next
  case False
  then show ?thesis using assms by (simp add: Transpose_def nonSquareTranspose_eq)
qed

lemma transposed_dims [simp]:
  "NumberOfRows (transposed m) = NumberOfColumns m"
  "NumberOfColumns (transposed m) = NumberOfRows m"
  "M_reserve (transposed m) = []"
  "length (M (transposed m)) = NumberOfRows m * NumberOfColumns m"
  by (simp_all add: transposed_def)

lemma well_formed_transposed: "well_formed m \<Longrightarrow> well_formed (transposed m)"
  by (simp add: well_formed_def mult.commute)

lemma nth_transposed:
  "p < NumberOfRows m * NumberOfColumns m \<Longrightarrow>
     M (transposed m) ! p = M m ! transpose_index (NumberOfRows m) (NumberOfColumns m) p"
  by (simp add: transposed_def)

lemma Get_transposed:
  assumes "well_formed m" "r < NumberOfRows m" "c < NumberOfColumns m"
  shows "Get (transposed m) c r = Get m r c"
proof -
  let ?R = "NumberOfRows m" and ?C = "NumberOfColumns m"
  have 1: "c * ?R + r < ?R * ?C" using index_bound [OF assms(3,2)] by (simp add: mult.commute)
  have 2: "r * ?C + c < ?R * ?C" using assms(2,3) by (rule index_bound)
  have "M (transposed m) ! (c * ?R + r) = M m ! (r * ?C + c)"
    using nth_transposed [OF 1] assms(2) by (simp add: transpose_index_pair)
  moreover have "?R * ?C < 2 ^ 64" using assms(1) by (simp add: well_formed_def)
  ultimately show ?thesis
    using 1 2 assms(1) by (simp add: Get_def index_read_def well_formed_def uint_small)
qed

lemma transposed_twice:
  assumes "well_formed m"
  shows "M (transposed (transposed m)) = M m"
proof (rule nth_equalityI)
  let ?R = "NumberOfRows m" and ?C = "NumberOfColumns m"
  show "length (M (transposed (transposed m))) = length (M m)"
    using assms by (simp add: well_formed_def mult.commute)
  fix p assume "p < length (M (transposed (transposed m)))"
  then have p: "p < ?C * ?R" by simp
  then have q: "transpose_index ?C ?R p < ?R * ?C"
    using transpose_index_less [of p ?C ?R] by (simp add: mult.commute)
  have "M (transposed (transposed m)) ! p = M (transposed m) ! transpose_index ?C ?R p"
    using nth_transposed [of p "transposed m"] p by simp
  also have "\<dots> = M m ! transpose_index ?R ?C (transpose_index ?C ?R p)"
    using q by (rule nth_transposed)
  also have "\<dots> = M m ! p"
    using p by (simp add: transpose_index_twice mult.commute)
  finally show "M (transposed (transposed m)) ! p = M m ! p" .
qed

text \<open>
  C3: for every matrix (with a buffer of \<open>rows * cols\<close> elements), square or not,
  \<^verbatim>\<open>Transpose\<close> returns, without error, a matrix with \<open>cols\<close> rows and \<open>rows\<close> columns on a buffer
  of its own (nothing behind its \<open>rows * cols\<close> elements), whose element at \<open>(c, r)\<close> is the
  element at \<open>(r, c)\<close> of the argument; and transposing the result gives back the shape and
  the very elements of the argument. The argument is a value here: the loops write to the
  new buffer only, and the theorem shows that they return.
\<close>

theorem Transpose_correct:
  "well_formed m \<longrightarrow>
     (\<exists>t. Transpose m = Some (Inr t)
        \<and> NumberOfRows t = NumberOfColumns m \<and> NumberOfColumns t = NumberOfRows m
        \<and> well_formed t \<and> M_reserve t = []
        \<and> (\<forall>r<NumberOfRows m. \<forall>c<NumberOfColumns m. Get t c r = Get m r c)
        \<and> (\<exists>u. Transpose t = Some (Inr u)
              \<and> NumberOfRows u = NumberOfRows m \<and> NumberOfColumns u = NumberOfColumns m
              \<and> M u = M m))"
proof
  assume m: "well_formed m"
  have "Transpose (transposed m) = Some (Inr (transposed (transposed m)))"
    using well_formed_transposed [OF m] by (rule Transpose_eq)
  then show "\<exists>t. Transpose m = Some (Inr t)
        \<and> NumberOfRows t = NumberOfColumns m \<and> NumberOfColumns t = NumberOfRows m
        \<and> well_formed t \<and> M_reserve t = []
        \<and> (\<forall>r<NumberOfRows m. \<forall>c<NumberOfColumns m. Get t c r = Get m r c)
        \<and> (\<exists>u. Transpose t = Some (Inr u)
              \<and> NumberOfRows u = NumberOfRows m \<and> NumberOfColumns u = NumberOfColumns m
              \<and> M u = M m)"
    using Transpose_eq [OF m] well_formed_transposed [OF m] Get_transposed [OF m]
      transposed_twice [OF m]
    by (intro exI [of _ "transposed m"]) simp
qed

theorem Transpose_correct_witness:
  "well_formed (matrix_of 2 3 [1, 2, 3, 4, 5, 6])
   \<and> (\<exists>t. Transpose (matrix_of 2 3 [1, 2, 3, 4, 5, 6]) = Some (Inr t)
         \<and> NumberOfRows t = 3 \<and> NumberOfColumns t = 2
         \<and> Get t 2 1 = Inr (float64 6) \<and> Get t 0 1 = Inr (float64 4)
         \<and> (\<exists>u. Transpose t = Some (Inr u) \<and> M u = map float64 [1, 2, 3, 4, 5, 6]))"
proof -
  let ?A = "matrix_of 2 3 [1, 2, 3, 4, 5, 6]"
  have wf: "well_formed ?A" by (simp add: well_formed_def matrix_of_def)
  have d: "NumberOfRows ?A = 2" "NumberOfColumns ?A = 3" "M ?A = map float64 [1, 2, 3, 4, 5, 6]"
    by (simp_all add: matrix_of_def)
  from Transpose_correct [of ?A] wf
  obtain t u where t: "Transpose ?A = Some (Inr t)" "NumberOfRows t = 3" "NumberOfColumns t = 2"
    "\<forall>r<2. \<forall>c<3. Get t c r = Get ?A r c"
    "Transpose t = Some (Inr u)" "M u = map float64 [1, 2, 3, 4, 5, 6]"
    unfolding d by blast
  from t(4) have "Get t 2 1 = Get ?A 1 2" "Get t 0 1 = Get ?A 1 0" by simp_all
  moreover have "Get ?A 1 2 = Inr (float64 6)" "Get ?A 1 0 = Inr (float64 4)"
    by (simp_all add: matrix_eval)
  ultimately show ?thesis using wf t by auto
qed

section \<open>Simpson returns, with one exception\<close>

lemma go_rem_2: "go_rem n 2 \<noteq> 0 \<longleftrightarrow> odd n"
proof -
  have "\<bar>n\<bar> mod 2 = n mod 2" by (simp add: abs_if) presburger
  moreover have "odd n \<Longrightarrow> n \<noteq> 0" by auto
  ultimately show ?thesis by (auto simp: go_rem_def sgn_if odd_iff_mod_2_eq_one)
qed

lemma wrap64_id: "is_int64 x \<Longrightarrow> wrap64 x = x"
  by (simp add: wrap64_def is_int64_def)

lemma wrap64_min_pred: "wrap64 (- (2 ^ 63) - 1) = 2 ^ 63 - 1"
  by (simp add: wrap64_def)

lemma is_int64_wrap64: "is_int64 (wrap64 x)"
  by (simp add: wrap64_def is_int64_def)

lemma even_wrap64: "even (wrap64 x) \<longleftrightarrow> even x"
proof -
  define k where "k = (x + 2 ^ 63) div 2 ^ 64"
  have "(x + 2 ^ 63) mod 2 ^ 64 = x + 2 ^ 63 - 2 ^ 64 * k"
    unfolding k_def by (simp add: minus_mult_div_eq_mod)
  then have "wrap64 x = x - 2 * (2 ^ 63 * k)" by (simp add: wrap64_def)
  then show ?thesis by simp
qed

lemma simpson_sum_returns:
  assumes "bound \<le> 2 ^ 63 - 2" and "is_int64 i"
  shows "\<exists>v. simpson_sum f inf' h c bound i s = Some v"
  using assms(2)
proof (induction "nat (bound - i)" arbitrary: i s rule: less_induct)
  case less
  show ?case
  proof (cases "i < bound")
    case False
    then show ?thesis by (subst simpson_sum.simps) simp
  next
    case True
    then have r: "is_int64 (i + 2)" using assms(1) less.prems by (simp add: is_int64_def)
    then have w: "wrap64 (i + 2) = i + 2" by (rule wrap64_id)
    have "nat (bound - (i + 2)) < nat (bound - i)" using True by simp
    from less.hyps [OF this r]
    show ?thesis using True by (subst simpson_sum.simps) (simp add: w)
  qed
qed

lemma simpson_sum_some:
  assumes "simpson_sum f inf' h c bound i s = Some y"
  shows "\<not> (bound = 2 ^ 63 - 1 \<and> even i \<and> is_int64 i)"
proof (rule simpson_sum.raw_induct
    [where P = "\<lambda>f inf' h c bound i s y. \<not> (bound = 2 ^ 63 - 1 \<and> even i \<and> is_int64 i)",
      OF _ assms])
  fix loop :: "(f64 \<Rightarrow> f64) \<Rightarrow> f64 \<Rightarrow> f64 \<Rightarrow> f64 \<Rightarrow> int \<Rightarrow> int \<Rightarrow> f64 \<Rightarrow> f64 option"
    and f inf' h c bound i s y
  assume IH: "\<And>f inf' h c bound i s y. loop f inf' h c bound i s = Some y \<Longrightarrow>
      \<not> (bound = 2 ^ 63 - 1 \<and> even i \<and> is_int64 i)"
    and step: "(if i < bound
      then loop f inf' h c bound (wrap64 (i + 2))
             (fadd s (fmul c (f (fadd inf' (fmul (float64 i) h)))))
      else Some s) = Some y"
  show "\<not> (bound = 2 ^ 63 - 1 \<and> even i \<and> is_int64 i)"
  proof
    assume a: "bound = 2 ^ 63 - 1 \<and> even i \<and> is_int64 i"
    then have "i \<noteq> 2 ^ 63 - 1" by auto
    then have "i < bound" using a by (simp add: is_int64_def)
    then have "loop f inf' h c bound (wrap64 (i + 2))
                 (fadd s (fmul c (f (fadd inf' (fmul (float64 i) h))))) = Some y"
      using step by simp
    from IH [OF this] show False
      using a by (simp add: even_wrap64 is_int64_wrap64)
  qed
qed

lemma simpson_sum_diverges:
  "even i \<Longrightarrow> is_int64 i \<Longrightarrow> simpson_sum f inf' h c (2 ^ 63 - 1) i s = None"
proof (cases "simpson_sum f inf' h c (2 ^ 63 - 1) i s")
  case None
  then show ?thesis .
next
  case (Some y)
  assume "even i" "is_int64 i"
  with simpson_sum_some [OF Some] show ?thesis by simp
qed

lemma Simpson_odd:
  "odd n \<Longrightarrow> Simpson inf' sup' f n = Some (Inl (errorMessage
        ''Invalid number of iterations, for simpson, iterations number has to be even''))"
  by (simp add: Simpson_def go_rem_2)

lemma Simpson_even:
  assumes "even n" "is_int64 n" "n \<noteq> - (2 ^ 63)"
  shows "\<exists>v. Simpson inf' sup' f n = Some (Inr v)"
proof -
  have n: "n \<le> 2 ^ 63 - 2"
  proof -
    have "n \<noteq> 2 ^ 63 - 1" using assms(1) by auto
    then show ?thesis using assms(2) by (simp add: is_int64_def)
  qed
  have one: "is_int64 1" "is_int64 2" by (simp_all add: is_int64_def)
  have "is_int64 (n - 1)" using assms(2,3) by (simp add: is_int64_def)
  then have w: "wrap64 (n - 1) = n - 1" by (rule wrap64_id)
  let ?h = "fdiv (fsub sup' inf') (float64 n)"
  obtain s1 where s1: "simpson_sum f inf' ?h (float64 4) n 1 (fadd (f inf') (f sup')) = Some s1"
    using simpson_sum_returns [OF n one(1)] by blast
  have "n - 1 \<le> 2 ^ 63 - 2" using n by simp
  then obtain s2 where s2: "simpson_sum f inf' ?h (float64 2) (n - 1) 2 s1 = Some s2"
    using simpson_sum_returns [OF _ one(2)] by blast
  show ?thesis
    using assms(1) s1 s2 by (simp add: Simpson_def go_rem_2 w Let_def)
qed

text \<open>
  C10: \<^verbatim>\<open>Simpson\<close> returns an error exactly when \<open>n\<close> is odd, and for every even \<open>n\<close> it returns
  a value. With \<open>n\<close> the least \<^verbatim>\<open>int\<close>, \<open>-2^63\<close>, which is even, the bound \<^verbatim>\<open>n-1\<close> of the second
  loop wraps to \<open>2^63 - 1\<close>; the counter \<open>j\<close> stays even, so it stays below the bound, and
  the call never returns, whatever \<open>inf\<close>, \<open>sup\<close> and \<open>f\<close> are.
\<close>

theorem Simpson_least_int_never_returns: "Simpson inf' sup' f (- (2 ^ 63)) = None"
proof -
  have e: "even (- (2 ^ 63) :: int)" by simp
  have "\<not> (1::int) < - (2 ^ 63)" by simp
  then have "simpson_sum f inf' h c (- (2 ^ 63)) 1 s = Some s" for h c s
    by (subst simpson_sum.simps) simp
  moreover have "simpson_sum f inf' h c (2 ^ 63 - 1) 2 s = None" for h c s
    by (rule simpson_sum_diverges) (simp_all add: is_int64_def)
  ultimately show ?thesis
    using e by (simp add: Simpson_def go_rem_2 wrap64_def Let_def)
qed

theorem Simpson_least_int_never_returns_instance:
  "is_int64 (- (2 ^ 63)) \<and> Simpson 0 1 (\<lambda>x. x) (- (2 ^ 63)) = None"
  using Simpson_least_int_never_returns [of 0 1 "\<lambda>x. x"] by (simp add: is_int64_def)

end
